theory Spec2Isabelle
  imports Complex_Main "HOL-Library.Word" "HOL-Library.AList"
begin

section \<open>Buffers, numbers and text\<close>

text \<open>
  A Node \<open>Buffer\<close> is a sequence of bytes. \<open>subarray(start, end)\<close> is a view of the
  bytes from \<open>start\<close> up to \<open>end\<close>, both clamped to the buffer. The integer readers and
  writers throw a \<open>RangeError\<close> when the access leaves the buffer or the value leaves
  the field; that is the \<open>Inl\<close> branch here.
\<close>

type_synonym byte = "8 word"
type_synonym Buffer = "byte list"

text \<open>A JavaScript string: its UTF-16 code units.\<close>
type_synonym jsstring = "nat list"

text \<open>The exceptions of the model: the \<open>RangeError\<close> of a buffer access, the
  \<open>TypeError\<close> of reading a property of \<open>undefined\<close>, the \<open>Error('No available
  ports')\<close> of the port pool, and \<open>SystemError\<close> for what a failing system call
  throws.\<close>

datatype error = RangeError | TypeError | NoAvailablePorts | SystemError

definition HEADER_SIZE :: nat where
  "HEADER_SIZE = 76"

definition DEVICE_NAME_FIELD_LENGTH :: nat where
  "DEVICE_NAME_FIELD_LENGTH = 64"

definition PACKET_META_SIZE :: nat where
  "PACKET_META_SIZE = 12"

definition subarray :: "Buffer \<Rightarrow> nat \<Rightarrow> nat \<Rightarrow> Buffer" where
  "subarray buf start end = take (end - start) (drop start buf)"

definition readUInt32BE :: "Buffer \<Rightarrow> nat \<Rightarrow> error + nat" where
  "readUInt32BE buf off =
     (if off + 4 \<le> length buf
      then Inr (unat (buf ! off) * 2 ^ 24 + unat (buf ! (off + 1)) * 2 ^ 16
                + unat (buf ! (off + 2)) * 2 ^ 8 + unat (buf ! (off + 3)))
      else Inl RangeError)"

text \<open>
  \<open>buf.toString('utf8')\<close>: the runtime's UTF-8 decoder. A byte sequence that is not
  well-formed yields U+FFFD for each maximal ill-formed part, and decoding goes on with
  the byte that broke the sequence. \<open>needed\<close> counts the continuation bytes still
  expected, \<open>cp\<close> is the code point collected so far, \<open>lo\<close> and \<open>hi\<close> bound the
  next continuation byte.
\<close>

definition utf16 :: "nat \<Rightarrow> jsstring" where
  "utf16 cp =
     (if cp < 65536 then [cp]
      else [55296 + (cp - 65536) div 1024, 56320 + (cp - 65536) mod 1024])"

fun utf8_decode :: "nat \<Rightarrow> nat \<Rightarrow> nat \<Rightarrow> nat \<Rightarrow> Buffer \<Rightarrow> jsstring" where
  "utf8_decode needed cp lo hi [] = (if needed = 0 then [] else [65533])"
| "utf8_decode needed cp lo hi (b # bs) =
     (let v = unat b in
      if needed = 0 then
        (if v \<le> 127 then v # utf8_decode 0 0 128 191 bs
         else if 194 \<le> v \<and> v \<le> 223 then utf8_decode 1 (v mod 32) 128 191 bs
         else if 224 \<le> v \<and> v \<le> 239 then
           utf8_decode 2 (v mod 16) (if v = 224 then 160 else 128)
             (if v = 237 then 159 else 191) bs
         else if 240 \<le> v \<and> v \<le> 244 then
           utf8_decode 3 (v mod 8) (if v = 240 then 144 else 128)
             (if v = 244 then 143 else 191) bs
         else 65533 # utf8_decode 0 0 128 191 bs)
      else if v < lo \<or> hi < v then 65533 # utf8_decode 0 0 128 191 (b # bs)
      else if needed = 1 then utf16 (cp * 64 + v mod 64) @ utf8_decode 0 0 128 191 bs
      else utf8_decode (needed - 1) (cp * 64 + v mod 64) 128 191 bs)"

definition toString_utf8 :: "Buffer \<Rightarrow> jsstring" where
  "toString_utf8 buf = utf8_decode 0 0 128 191 buf"

text \<open>\<open>s.replace(/\0/g, '')\<close>: every NUL code unit is removed, wherever it stands.\<close>

definition removeNul :: "jsstring \<Rightarrow> jsstring" where
  "removeNul s = filter (\<lambda>u. u \<noteq> 0) s"

section \<open>ScrcpyClient: the stream framer\<close>

datatype readState = HEADER | STREAMING

datatype streamState = PACKET_META | PACKET_DATA

record deviceInfo =
  name :: jsstring
  width :: nat
  height :: nat

text \<open>The events a client emits to its listeners while it reads the stream.\<close>

datatype event = Ready deviceInfo | VideoData Buffer

text \<open>
  The fields of a \<open>ScrcpyClient\<close> that the framer, the touch encoder and \<open>stop\<close>
  use. \<open>localServer\<close>, \<open>adbProcess\<close> and \<open>socket\<close> are handles that are either
  \<open>null\<close> (\<open>False\<close>) or present.
\<close>

record ScrcpyClient =
  serial :: string
  port :: nat
  localServer :: bool
  adbProcess :: bool
  socket :: bool
  buffer :: Buffer
  readState :: readState
  streamState :: streamState
  currentPacketSize :: nat
  deviceInfo :: deviceInfo

text \<open>The constructor: \<open>new ScrcpyClient(serial, { port })\<close>.\<close>

definition newClient :: "string \<Rightarrow> nat \<Rightarrow> ScrcpyClient" where
  "newClient s p =
     \<lparr> serial = s, port = p, localServer = False, adbProcess = False, socket = False,
       buffer = [], readState = HEADER, streamState = PACKET_META,
       currentPacketSize = 0,
       deviceInfo = \<lparr> name = [], width = 0, height = 0 \<rparr> \<rparr>"

text \<open>
  The \<open>while (remaining > 0)\<close> loop of \<open>_processData\<close>, with its local variables
  \<open>offset\<close> and \<open>remaining\<close> and the events emitted so far. A \<open>break\<close> returns the
  current state.
\<close>

function processLoop ::
  "ScrcpyClient \<Rightarrow> nat \<Rightarrow> nat \<Rightarrow> event list \<Rightarrow> error + (ScrcpyClient \<times> nat \<times> event list)"
where
  "processLoop c offset remaining evs =
     (if remaining > 0 then
        (if readState c = HEADER then
           (if remaining < HEADER_SIZE then Inr (c, offset, evs)
            else
              (case readUInt32BE (buffer c) (offset + 68) of
                 Inl e \<Rightarrow> Inl e
               | Inr w \<Rightarrow>
                  (case readUInt32BE (buffer c) (offset + 72) of
                     Inl e \<Rightarrow> Inl e
                   | Inr h \<Rightarrow>
                       processLoop
                         (c\<lparr> deviceInfo :=
                              \<lparr> name = removeNul (toString_utf8
                                  (subarray (buffer c) offset (offset + DEVICE_NAME_FIELD_LENGTH))),
                                width = w, height = h \<rparr>,
                            readState := STREAMING \<rparr>)
                         (offset + HEADER_SIZE) (remaining - HEADER_SIZE)
                         (evs @ [Ready
                              \<lparr> name = removeNul (toString_utf8
                                  (subarray (buffer c) offset (offset + DEVICE_NAME_FIELD_LENGTH))),
                                width = w, height = h \<rparr>]))))
         else
           (if streamState c = PACKET_META then
              (if remaining < PACKET_META_SIZE then Inr (c, offset, evs)
               else
                 (case readUInt32BE (buffer c) (offset + 8) of
                    Inl e \<Rightarrow> Inl e
                  | Inr n \<Rightarrow>
                      processLoop (c\<lparr> currentPacketSize := n, streamState := PACKET_DATA \<rparr>)
                        (offset + PACKET_META_SIZE) (remaining - PACKET_META_SIZE) evs))
            else
              (if remaining < currentPacketSize c then Inr (c, offset, evs)
               else
                 processLoop (c\<lparr> streamState := PACKET_META \<rparr>)
                   (offset + currentPacketSize c) (remaining - currentPacketSize c)
                   (evs @ [VideoData
                       (subarray (buffer c) offset (offset + currentPacketSize c))]))))
      else Inr (c, offset, evs))"
  by pat_completeness auto
termination
  by (relation "measure (\<lambda>(c, offset, remaining, evs).
        2 * remaining + (if streamState c = PACKET_META then 0 else 1))")
     (auto simp: HEADER_SIZE_def PACKET_META_SIZE_def)

text \<open>
  \<open>_processData(chunk)\<close>: the chunk is appended to the bytes kept from earlier calls,
  the loop runs from offset 0, and the bytes the loop has not consumed are kept.
\<close>

definition processData :: "ScrcpyClient \<Rightarrow> Buffer \<Rightarrow> error + (ScrcpyClient \<times> event list)" where
  "processData c chunk =
     (let c1 = (if length (buffer c) > 0 then c\<lparr> buffer := buffer c @ chunk \<rparr>
                else c\<lparr> buffer := chunk \<rparr>)
      in case processLoop c1 0 (length (buffer c1)) [] of
           Inl e \<Rightarrow> Inl e
         | Inr (c2, offset, evs) \<Rightarrow>
             if offset = length (buffer c2) then Inr (c2\<lparr> buffer := [] \<rparr>, evs)
             else if offset > 0 then Inr (c2\<lparr> buffer := drop offset (buffer c2) \<rparr>, evs)
             else Inr (c2, evs))"

text \<open>
  The socket's \<open>data\<close> handler called once per chunk, in order: the state is threaded
  through the calls and the events are collected in the order they are emitted.
\<close>

fun feed :: "ScrcpyClient \<Rightarrow> Buffer list \<Rightarrow> error + (ScrcpyClient \<times> event list)" where
  "feed c [] = Inr (c, [])"
| "feed c (chunk # chunks) =
     (case processData c chunk of
        Inl e \<Rightarrow> Inl e
      | Inr (c1, evs1) \<Rightarrow>
          (case feed c1 chunks of
             Inl e \<Rightarrow> Inl e
           | Inr (c2, evs2) \<Rightarrow> Inr (c2, evs1 @ evs2)))"


section \<open>ScrcpyClient: the touch message\<close>

text \<open>
  What \<open>Math.round\<close> returns: a whole number, \<open>NaN\<close> or an infinity. The product
  it rounds is a product of doubles, computed by the runtime; the model does not compute
  it and takes the rounded product as a function of the two factors (\<open>scale\<close> below).
\<close>

datatype number = Finite int | NaN | PlusInfinity | MinusInfinity

definition writeUInt8 :: "Buffer \<Rightarrow> int \<Rightarrow> nat \<Rightarrow> error + Buffer" where
  "writeUInt8 buf v off =
     (if off + 1 \<le> length buf \<and> 0 \<le> v \<and> v \<le> 255
      then Inr (buf[off := of_int v])
      else Inl RangeError)"

definition writeUInt16BE :: "Buffer \<Rightarrow> int \<Rightarrow> nat \<Rightarrow> error + Buffer" where
  "writeUInt16BE buf v off =
     (if off + 2 \<le> length buf \<and> 0 \<le> v \<and> v \<le> 65535
      then Inr (buf[off := of_int (v div 256), off + 1 := of_int v])
      else Inl RangeError)"

definition writeUInt32BE :: "Buffer \<Rightarrow> int \<Rightarrow> nat \<Rightarrow> error + Buffer" where
  "writeUInt32BE buf v off =
     (if off + 4 \<le> length buf \<and> 0 \<le> v \<and> v \<le> 4294967295
      then Inr (buf[off := of_int (v div 16777216), off + 1 := of_int (v div 65536),
                    off + 2 := of_int (v div 256), off + 3 := of_int v])
      else Inl RangeError)"

text \<open>
  A negative value is stored in two's complement: each byte is the value shifted right
  and cut to its low eight bits. The range check \<open>value > max || value < min\<close> is false
  for \<open>NaN\<close>, which is then stored as four zero bytes; an infinity fails the check.
\<close>

definition writeInt32BE :: "Buffer \<Rightarrow> number \<Rightarrow> nat \<Rightarrow> error + Buffer" where
  "writeInt32BE buf val off =
     (case val of
        Finite v \<Rightarrow>
          if off + 4 \<le> length buf \<and> - 2147483648 \<le> v \<and> v \<le> 2147483647
          then Inr (buf[off := of_int (v div 16777216), off + 1 := of_int (v div 65536),
                        off + 2 := of_int (v div 256), off + 3 := of_int v])
          else Inl RangeError
      | NaN \<Rightarrow>
          if off + 4 \<le> length buf
          then Inr (buf[off := 0, off + 1 := 0, off + 2 := 0, off + 3 := 0])
          else Inl RangeError
      | PlusInfinity \<Rightarrow> Inl RangeError
      | MinusInfinity \<Rightarrow> Inl RangeError)"

text \<open>
  \<open>sendTouch(action, xPercent, yPercent)\<close>. \<open>scale p d\<close> is the runtime's
  \<open>Math.round(p * d)\<close> for a value \<open>p\<close> of the message and a device dimension \<open>d\<close>;
  the type of \<open>p\<close> is left open, since the message gives whatever the viewer has sent.
  The action is an integer. The result holds the client and the buffers handed to
  \<open>socket.write\<close>. An exception of \<open>socket.write\<close> itself is caught and logged by the
  source, so it is never an error of \<open>sendTouch\<close>; the writers' \<open>RangeError\<close> is not
  caught.
\<close>

definition sendTouch ::
  "('p \<Rightarrow> nat \<Rightarrow> number) \<Rightarrow> ScrcpyClient \<Rightarrow> int \<Rightarrow> 'p \<Rightarrow> 'p
     \<Rightarrow> error + (ScrcpyClient \<times> Buffer list)"
where
  "sendTouch scale c action xPercent yPercent =
     (if \<not> socket c \<or> width (deviceInfo c) = 0 then Inr (c, [])
      else
        let x = scale xPercent (width (deviceInfo c));
            y = scale yPercent (height (deviceInfo c))
        in
          case writeUInt8 (replicate 32 0) 2 0 of Inl e \<Rightarrow> Inl e | Inr b1 \<Rightarrow>
          case writeUInt8 b1 action 1 of Inl e \<Rightarrow> Inl e | Inr b2 \<Rightarrow>
          case writeInt32BE b2 x 10 of Inl e \<Rightarrow> Inl e | Inr b3 \<Rightarrow>
          case writeInt32BE b3 y 14 of Inl e \<Rightarrow> Inl e | Inr b4 \<Rightarrow>
          case writeUInt16BE b4 (int (width (deviceInfo c))) 18 of Inl e \<Rightarrow> Inl e | Inr b5 \<Rightarrow>
          case writeUInt16BE b5 (int (height (deviceInfo c))) 20 of Inl e \<Rightarrow> Inl e | Inr b6 \<Rightarrow>
          case writeUInt16BE b6 (if action = 1 then 0 else 65535) 22 of Inl e \<Rightarrow> Inl e | Inr b7 \<Rightarrow>
          case writeUInt32BE b7 1 24 of Inl e \<Rightarrow> Inl e | Inr b8 \<Rightarrow>
          case writeInt32BE b8 (Finite 0) 28 of Inl e \<Rightarrow> Inl e | Inr b9 \<Rightarrow>
            Inr (c, [b9]))"

section \<open>ScrcpyClient: stop\<close>

text \<open>The calls \<open>stop\<close> makes on the handles it owns, and the event it emits.\<close>

datatype effect = SocketDestroy | ServerClose | ProcessKill | EmitStopped

text \<open>
  \<open>stop()\<close>. \<open>kill\<close> is what \<open>adbProcess.kill()\<close> does when it is called: it returns
  or it throws. The call stands in \<open>try { } catch (e) { }\<close>, so both outcomes go on with
  \<open>adbProcess = null\<close>. \<open>socket.destroy()\<close> and \<open>localServer.close()\<close> stand outside
  any \<open>try\<close>: the runtime reports a failure of either through an event or a callback,
  not by throwing, so each is a call that returns.
\<close>

definition stop :: "error + unit \<Rightarrow> ScrcpyClient \<Rightarrow> ScrcpyClient \<times> effect list" where
  "stop kill c =
     (let (c1, e1) = (if socket c then (c\<lparr> socket := False \<rparr>, [SocketDestroy]) else (c, []));
          (c2, e2) = (if localServer c1 then (c1\<lparr> localServer := False \<rparr>, [ServerClose])
                      else (c1, []));
          (c3, e3) = (if adbProcess c2
                      then (case kill of
                              Inl e \<Rightarrow> (c2\<lparr> adbProcess := False \<rparr>, [ProcessKill])
                            | Inr u \<Rightarrow> (c2\<lparr> adbProcess := False \<rparr>, [ProcessKill]))
                      else (c2, []))
      in (c3, e1 @ e2 @ e3 @ [EmitStopped]))"

section \<open>main.js: ports, registry, scanner, viewers\<close>

text \<open>\<open>usedPorts\<close> is a set of port numbers. \<open>allocPort\<close> scans upwards from 27183
  and throws when the scan reaches 28000.\<close>

function allocPort_loop :: "nat \<Rightarrow> nat set \<Rightarrow> error + (nat \<times> nat set)" where
  "allocPort_loop p used =
     (if p < 28000 then
        (if p \<notin> used then Inr (p, insert p used) else allocPort_loop (p + 1) used)
      else Inl NoAvailablePorts)"
  by pat_completeness auto
termination
  by (relation "measure (\<lambda>(p, used). 28000 - p)") auto

definition allocPort :: "nat set \<Rightarrow> error + (nat \<times> nat set)" where
  "allocPort used = allocPort_loop 27183 used"

definition freePort :: "nat \<Rightarrow> nat set \<Rightarrow> nat set" where
  "freePort p used = used - {p}"

text \<open>An entry of \<open>deviceBuffers\<close>: the latest SPS, PPS and IDR packet, each absent
  until one has arrived.\<close>

record cache =
  sps :: "Buffer option"
  pps :: "Buffer option"
  idr :: "Buffer option"

text \<open>An entry of \<open>activeClients\<close>: \<open>{ client, port }\<close>.\<close>

record info =
  client :: ScrcpyClient
  info_port :: nat

text \<open>A line of \<open>adb devices -l\<close> as \<open>getAdbDevices\<close> returns it.\<close>

record device =
  dev_serial :: string
  model :: string

text \<open>A viewer's WebSocket: the serial the connection handler gives it, whether its
  state is \<open>OPEN\<close>, and the frames sent to it so far, in order.\<close>

record ws =
  ws_serial :: "string option"
  readyState_OPEN :: bool
  sent :: "Buffer list"

text \<open>
  The global state. A JavaScript \<open>Map\<close> keeps its keys in insertion order, so the two
  maps are association lists: \<open>has\<close> is membership of the key, \<open>get\<close> is \<open>map_of\<close>,
  \<open>set\<close> is \<open>AList.update\<close> and \<open>delete\<close> is \<open>AList.delete\<close>. \<open>wssClients\<close> is
  \<open>wss.clients\<close>; a viewer is named by its position there.
\<close>

record global =
  activeClients :: "(string \<times> info) list"
  deviceBuffers :: "(string \<times> cache) list"
  usedPorts :: "nat set"
  scanning :: bool
  wssClients :: "ws list"

definition has :: "('k \<times> 'v) list \<Rightarrow> 'k \<Rightarrow> bool" where
  "has m k = (k \<in> fst ` set m)"

text \<open>What the scanner does to the world, in the order it does it.\<close>

datatype action =
    ClientStop string "effect list"
  | FreePort nat
  | AllocPort nat
  | NewClient string nat
  | ClientStart string
  | ScannerLoopError error

text \<open>The first loop of \<open>deviceScanner\<close>: every registered serial that is not among the
  current ones is stopped, its port freed and its two map entries deleted.\<close>

fun removeLoop ::
  "(string \<Rightarrow> error + unit) \<Rightarrow> string set \<Rightarrow> (string \<times> info) list \<Rightarrow> global \<Rightarrow> action list
     \<Rightarrow> global \<times> action list"
where
  "removeLoop kill currentSerials [] g tr = (g, tr)"
| "removeLoop kill currentSerials ((s, i) # rest) g tr =
     (if s \<notin> currentSerials then
        removeLoop kill currentSerials rest
          (g\<lparr> usedPorts := freePort (info_port i) (usedPorts g),
               activeClients := AList.delete s (activeClients g),
               deviceBuffers := AList.delete s (deviceBuffers g) \<rparr>)
          (tr @ [ClientStop s (snd (stop (kill s) (client i))), FreePort (info_port i)])
      else removeLoop kill currentSerials rest g tr)"

text \<open>The second loop: every device without an entry gets a port, a new client and an
  empty cache. An exception of \<open>allocPort\<close> leaves the loop for the \<open>catch\<close> block.\<close>

fun addLoop :: "device list \<Rightarrow> global \<Rightarrow> action list \<Rightarrow> global \<times> action list" where
  "addLoop [] g tr = (g, tr)"
| "addLoop (d # ds) g tr =
     (if has (activeClients g) (dev_serial d) then addLoop ds g tr
      else
        (case allocPort (usedPorts g) of
           Inl e \<Rightarrow> (g, tr @ [ScannerLoopError e])
         | Inr (p, used) \<Rightarrow>
             addLoop ds
               (g\<lparr> usedPorts := used,
                    activeClients :=
                      AList.update (dev_serial d)
                        \<lparr> client = newClient (dev_serial d) p, info_port = p \<rparr> (activeClients g),
                    deviceBuffers :=
                      AList.update (dev_serial d) \<lparr> sps = None, pps = None, idr = None \<rparr>
                        (deviceBuffers g) \<rparr>)
               (tr @ [AllocPort p, NewClient (dev_serial d) p, ClientStart (dev_serial d)])))"

text \<open>
  \<open>deviceScanner()\<close> from the point where \<open>getAdbDevices()\<close> has answered with
  \<open>devices\<close>. \<open>kill s\<close> is the outcome of killing the agent process of serial \<open>s\<close>.
\<close>

definition deviceScanner ::
  "(string \<Rightarrow> error + unit) \<Rightarrow> device list \<Rightarrow> global \<Rightarrow> global \<times> action list"
where
  "deviceScanner kill devices g =
     (if scanning g then (g, [])
      else
        let g0 = g\<lparr> scanning := True \<rparr>;
            currentSerials = set (map dev_serial devices);
            (g1, tr1) = removeLoop kill currentSerials (activeClients g0) g0 [];
            (g2, tr2) = addLoop devices g1 tr1
        in (g2\<lparr> scanning := False \<rparr>, tr2))"

text \<open>
  The \<open>close\<close> handler of a client's agent process calls \<open>this.stop()\<close>. The client
  is the object the registry entry of its serial refers to, so the entry shows the
  stopped client; nothing else of the global state is touched.
\<close>

definition adbProcess_close ::
  "error + unit \<Rightarrow> string \<Rightarrow> global \<Rightarrow> global \<times> action list"
where
  "adbProcess_close kill s g =
     (case map_of (activeClients g) s of
        None \<Rightarrow> (g, [])
      | Some i \<Rightarrow>
          (g\<lparr> activeClients :=
                 AList.update s (i\<lparr> client := fst (stop kill (client i)) \<rparr>) (activeClients g) \<rparr>,
           [ClientStop s (snd (stop kill (client i)))]))"

text \<open>\<open>cacheNal(serial, buf)\<close>. \<open>buf[4]\<close> of a buffer with fewer than five bytes is
  \<open>undefined\<close>, and \<open>undefined & 0x1f\<close> is 0.\<close>

definition cacheNal :: "string \<Rightarrow> Buffer \<Rightarrow> global \<Rightarrow> global" where
  "cacheNal s buf g =
     (let nalType = (if 4 < length buf then and (buf ! 4) 31 else 0) in
      case map_of (deviceBuffers g) s of
        None \<Rightarrow> g
      | Some c \<Rightarrow>
          if nalType = 7 then g\<lparr> deviceBuffers := AList.update s (c\<lparr> sps := Some buf \<rparr>) (deviceBuffers g) \<rparr>
          else if nalType = 8 then g\<lparr> deviceBuffers := AList.update s (c\<lparr> pps := Some buf \<rparr>) (deviceBuffers g) \<rparr>
          else if nalType = 5 then g\<lparr> deviceBuffers := AList.update s (c\<lparr> idr := Some buf \<rparr>) (deviceBuffers g) \<rparr>
          else g)"

definition broadcast :: "string \<Rightarrow> Buffer \<Rightarrow> global \<Rightarrow> global" where
  "broadcast s data g =
     g\<lparr> wssClients :=
          map (\<lambda>w. if readyState_OPEN w \<and> ws_serial w = Some s
                    then w\<lparr> sent := sent w @ [data] \<rparr> else w)
            (wssClients g) \<rparr>"

text \<open>The listener the scanner registers on a new client:
  \<open>client.on('video-data', data => { cacheNal(d.serial, data); broadcast(d.serial, data) })\<close>.\<close>

definition on_video_data :: "string \<Rightarrow> Buffer \<Rightarrow> global \<Rightarrow> global" where
  "on_video_data s data g = broadcast s data (cacheNal s data g)"

text \<open>
  The \<open>connection\<close> handler of the WebSocket server up to its first asynchronous call.
  \<open>param\<close> is \<open>params.get('serial')\<close>. The new socket is the last of \<open>wss.clients\<close>. A
  missing, empty or unknown serial closes it. Otherwise it gets its serial and the
  cached packets; \<open>target.client\<close> then throws a \<open>TypeError\<close> when the registry has no
  entry for the serial.
\<close>

definition ws_connection :: "string option \<Rightarrow> global \<Rightarrow> global \<times> error option" where
  "ws_connection param g =
     (case param of
        None \<Rightarrow>
          (g\<lparr> wssClients := wssClients g @ [\<lparr> ws_serial = None, readyState_OPEN = False, sent = [] \<rparr>] \<rparr>,
           None)
      | Some s \<Rightarrow>
          (case (if s = [] then None else map_of (deviceBuffers g) s) of
             None \<Rightarrow>
               (g\<lparr> wssClients := wssClients g @ [\<lparr> ws_serial = None, readyState_OPEN = False, sent = [] \<rparr>] \<rparr>,
                None)
           | Some buf \<Rightarrow>
               (g\<lparr> wssClients := wssClients g @
                     [\<lparr> ws_serial = Some s, readyState_OPEN = True,
                        sent = (case sps buf of None \<Rightarrow> [] | Some a \<Rightarrow> [a])
                             @ (case pps buf of None \<Rightarrow> [] | Some b \<Rightarrow> [b])
                             @ (case idr buf of None \<Rightarrow> [] | Some k \<Rightarrow> [k]) \<rparr>] \<rparr>,
                (case map_of (activeClients g) s of None \<Rightarrow> Some TypeError | Some t \<Rightarrow> None))))"

text \<open>What happens after a viewer has connected: a client emits a video packet, or one of
  the status and info reports sends a frame to one viewer (\<open>ws.send\<close> on an open
  socket).\<close>

datatype later = VideoPacket string Buffer | Report nat Buffer

fun after :: "global \<Rightarrow> later \<Rightarrow> global" where
  "after g (VideoPacket s data) = on_video_data s data g"
| "after g (Report n frame) =
     (if n < length (wssClients g) \<and> readyState_OPEN (wssClients g ! n)
      then g\<lparr> wssClients := (wssClients g)[n := (wssClients g ! n)\<lparr> sent := sent (wssClients g ! n) @ [frame] \<rparr>] \<rparr>
      else g)"

text \<open>The frames of a run of later events that go to viewer \<open>n\<close> watching serial \<open>s\<close>.\<close>

fun frames_for :: "nat \<Rightarrow> string \<Rightarrow> later list \<Rightarrow> Buffer list" where
  "frames_for n s [] = []"
| "frames_for n s (VideoPacket s' data # evs) =
     (if s' = s then data # frames_for n s evs else frames_for n s evs)"
| "frames_for n s (Report m frame # evs) =
     (if m = n then frame # frames_for n s evs else frames_for n s evs)"


section \<open>The framer as a function of the unread bytes\<close>

text \<open>
  For the proofs the loop is described a second time, without offsets: \<open>consume\<close> works
  on a client whose buffer holds exactly the bytes not yet consumed, and drops bytes
  from its front as it goes. \<open>be32\<close> is the big-endian reading of four bytes and
  \<open>headerInfo\<close> the device info a header decodes to. \<open>processLoop\<close> and
  \<open>processData\<close> are shown below to compute what \<open>consume\<close> computes.
\<close>

definition be32 :: "Buffer \<Rightarrow> nat \<Rightarrow> nat" where
  "be32 buf off = unat (buf ! off) * 2 ^ 24 + unat (buf ! (off + 1)) * 2 ^ 16
                + unat (buf ! (off + 2)) * 2 ^ 8 + unat (buf ! (off + 3))"

definition headerInfo :: "Buffer \<Rightarrow> deviceInfo" where
  "headerInfo b = \<lparr> name = removeNul (toString_utf8 (take 64 b)),
                    width = be32 b 68, height = be32 b 72 \<rparr>"

function consume :: "ScrcpyClient \<Rightarrow> event list \<Rightarrow> ScrcpyClient \<times> event list" where
  "consume c evs =
     (if buffer c = [] then (c, evs)
      else if readState c = HEADER then
        (if length (buffer c) < 76 then (c, evs)
         else consume (c\<lparr> deviceInfo := headerInfo (buffer c), readState := STREAMING,
                          buffer := drop 76 (buffer c) \<rparr>)
                (evs @ [Ready (headerInfo (buffer c))]))
      else if streamState c = PACKET_META then
        (if length (buffer c) < 12 then (c, evs)
         else consume (c\<lparr> currentPacketSize := be32 (buffer c) 8, streamState := PACKET_DATA,
                          buffer := drop 12 (buffer c) \<rparr>) evs)
      else
        (if length (buffer c) < currentPacketSize c then (c, evs)
         else consume (c\<lparr> streamState := PACKET_META,
                          buffer := drop (currentPacketSize c) (buffer c) \<rparr>)
                (evs @ [VideoData (take (currentPacketSize c) (buffer c))])))"
  by pat_completeness auto
termination
  by (relation "measure (\<lambda>(c, evs).
        2 * length (buffer c) + (if streamState c = PACKET_META then 0 else 1))")
     auto


text \<open>A client is at rest when the loop would stop at once: no byte is left, or fewer
  than the unit in turn needs.\<close>

definition atRest :: "ScrcpyClient \<Rightarrow> bool" where
  "atRest c =
     (if buffer c = [] then True
      else if readState c = HEADER then length (buffer c) < 76
      else if streamState c = PACKET_META then length (buffer c) < 12
      else length (buffer c) < currentPacketSize c)"

definition headerStep :: "ScrcpyClient \<Rightarrow> ScrcpyClient" where
  "headerStep c = c\<lparr> deviceInfo := headerInfo (buffer c), readState := STREAMING,
                       buffer := drop 76 (buffer c) \<rparr>"

definition metaStep :: "ScrcpyClient \<Rightarrow> ScrcpyClient" where
  "metaStep c = c\<lparr> currentPacketSize := be32 (buffer c) 8, streamState := PACKET_DATA,
                     buffer := drop 12 (buffer c) \<rparr>"

definition dataStep :: "ScrcpyClient \<Rightarrow> ScrcpyClient" where
  "dataStep c = c\<lparr> streamState := PACKET_META,
                     buffer := drop (currentPacketSize c) (buffer c) \<rparr>"


text \<open>The reading of a name field that claim C6 gives: only the NUL code units at the
  end of the text are removed. It is compared with \<open>removeNul\<close> below.\<close>

definition stripTrailingNul :: "jsstring \<Rightarrow> jsstring" where
  "stripTrailingNul s = rev (dropWhile (\<lambda>u. u = 0) (rev s))"

section \<open>Reading a message back\<close>

text \<open>
  The fields of a message as its receiver reads them: \<open>uint16_at\<close> and \<open>be32\<close> are the
  unsigned big-endian numbers of two and four bytes, \<open>int32_at\<close> is the four bytes in
  two's complement. \<open>touch_client\<close> is a connected client of a 1080 by 2400 device and
  \<open>touch_down_msg\<close> the message of a touch down in the middle of its screen.
\<close>

definition uint16_at :: "Buffer \<Rightarrow> nat \<Rightarrow> nat" where
  "uint16_at buf off = unat (buf ! off) * 256 + unat (buf ! (off + 1))"

definition int32_at :: "Buffer \<Rightarrow> nat \<Rightarrow> int" where
  "int32_at buf off =
     (if be32 buf off < 2147483648 then int (be32 buf off) else int (be32 buf off) - 4294967296)"

text \<open>
  \<open>int32_written\<close> is the number that \<open>writeInt32BE\<close> stores for a value it accepts.
  The examples use one fraction, the double 0.5. Half of a whole number below \<open>2^53\<close>
  is a double, so the product \<open>0.5 * d\<close> is exact, and \<open>Math.round\<close> rounds a half
  upwards: \<open>round_times Half d\<close> is the runtime's \<open>Math.round(0.5 * d)\<close> for every
  dimension \<open>d\<close> that a header can hold.
\<close>

fun int32_written :: "number \<Rightarrow> int" where
  "int32_written (Finite v) = v"
| "int32_written NaN = 0"
| "int32_written PlusInfinity = 0"
| "int32_written MinusInfinity = 0"

datatype fraction = Half

fun round_times :: "fraction \<Rightarrow> nat \<Rightarrow> number" where
  "round_times Half d = Finite ((int d + 1) div 2)"

definition touch_client :: ScrcpyClient where
  "touch_client = (newClient ''A'' 27183)
     \<lparr> socket := True, deviceInfo := \<lparr> name = [], width = 1080, height = 2400 \<rparr> \<rparr>"

definition touch_down_msg :: Buffer where
  "touch_down_msg =
     [2, 0, 0, 0, 0, 0, 0, 0, 0, 0, 0, 0, 2, 28, 0, 0, 4, 176,
      4, 56, 9, 96, 255, 255, 0, 0, 0, 1, 0, 0, 0, 0]"

section \<open>States for the examples\<close>

text \<open>
  \<open>initial_global\<close> is the global state when \<open>main.js\<close> has been loaded. \<open>one_device\<close>
  is the state after the first scan has found device \<open>A\<close>, \<open>running_device\<close> the same
  with the client's listener, agent process and socket present, and \<open>cached_device\<close> the
  state after an SPS, a PPS and an IDR packet of \<open>A\<close> have arrived.
\<close>

definition initial_global :: global where
  "initial_global =
     \<lparr> activeClients = [], deviceBuffers = [], usedPorts = {}, scanning = False,
       wssClients = [] \<rparr>"

definition one_device :: global where
  "one_device =
     \<lparr> activeClients = [(''A'', \<lparr> client = newClient ''A'' 27183, info_port = 27183 \<rparr>)],
       deviceBuffers = [(''A'', \<lparr> sps = None, pps = None, idr = None \<rparr>)],
       usedPorts = {27183}, scanning = False, wssClients = [] \<rparr>"

definition sps_packet :: Buffer where
  "sps_packet = [0, 0, 0, 1, 103, 66]"

definition pps_packet :: Buffer where
  "pps_packet = [0, 0, 0, 1, 104, 206]"

definition idr_packet :: Buffer where
  "idr_packet = [0, 0, 0, 1, 101, 136]"

definition p_packet :: Buffer where
  "p_packet = [0, 0, 0, 1, 65, 154]"

definition cached_device :: global where
  "cached_device =
     foldl after one_device
       [VideoPacket ''A'' sps_packet, VideoPacket ''A'' pps_packet, VideoPacket ''A'' idr_packet]"

definition running_client :: ScrcpyClient where
  "running_client = (newClient ''A'' 27183)\<lparr> localServer := True, adbProcess := True, socket := True \<rparr>"

definition running_device :: global where
  "running_device =
     \<lparr> activeClients = [(''A'', \<lparr> client = running_client, info_port = 27183 \<rparr>)],
       deviceBuffers = [(''A'', \<lparr> sps = None, pps = None, idr = None \<rparr>)],
       usedPorts = {27183}, scanning = False, wssClients = [] \<rparr>"

text \<open>A packet of the stream is a pair of its 12-byte meta and its payload;
  \<open>packet_bytes\<close> is what it looks like on the wire.\<close>

definition packet_bytes :: "Buffer \<times> Buffer \<Rightarrow> Buffer" where
  "packet_bytes pkt = fst pkt @ snd pkt"

section \<open>The loop and its offset-free description agree\<close>

declare consume.simps [simp del]
declare processLoop.simps [simp del]

lemma readUInt32BE_drop:
  "off + k + 4 \<le> length b \<Longrightarrow> readUInt32BE b (off + k) = Inr (be32 (drop off b) k)"
  by (simp add: readUInt32BE_def be32_def add.assoc add.commute add.left_commute)

lemma processLoop_consume:
  "offset + remaining = length (buffer c) \<Longrightarrow>
   processLoop c offset remaining evs =
     Inr (case consume (c\<lparr> buffer := drop offset (buffer c) \<rparr>) evs of
            (c', evs') \<Rightarrow> (c'\<lparr> buffer := buffer c \<rparr>, length (buffer c) - length (buffer c'), evs'))"
proof (induction c offset remaining evs rule: processLoop.induct)
  case (1 c offset remaining evs)
  have len: "length (buffer c) - offset = remaining" "length (buffer c) - remaining = offset"
    using "1.prems" by simp_all
  show ?case
  proof (cases "remaining = 0")
    case True
    with 1 show ?thesis
      by (subst processLoop.simps, subst consume.simps) simp
  next
    case False
    show ?thesis
    proof (cases "readState c = HEADER")
      case True
      with 1 len \<open>remaining \<noteq> 0\<close> show ?thesis
        by (subst processLoop.simps, subst consume.simps)
           (simp add: HEADER_SIZE_def DEVICE_NAME_FIELD_LENGTH_def readUInt32BE_drop
              headerInfo_def subarray_def add.commute)
    next
      case notH: False
      show ?thesis
      proof (cases "streamState c = PACKET_META")
        case True
        with 1 len notH \<open>remaining \<noteq> 0\<close> show ?thesis
          by (subst processLoop.simps, subst consume.simps)
             (simp add: PACKET_META_SIZE_def readUInt32BE_drop add.commute)
      next
        case False
        with 1 len notH \<open>remaining \<noteq> 0\<close> show ?thesis
          by (subst processLoop.simps, subst consume.simps)
             (simp add: subarray_def add.commute)
      qed
    qed
  qed
qed


lemma drop_suffix_step:
  assumes "n \<le> length b" "length b' \<le> length b - n"
    and "b' = drop (length b - n - length b') (drop n b)"
  shows "length b' \<le> length b \<and> b' = drop (length b - length b') b"
proof -
  have "length b - n - length b' + n = length b - length b'"
    using assms(1,2) by arith
  with assms show ?thesis
    by (metis diff_le_self drop_drop le_trans)
qed

lemma consume_suffix:
  "consume c evs = (c', evs') \<Longrightarrow>
   length (buffer c') \<le> length (buffer c) \<and>
   buffer c' = drop (length (buffer c) - length (buffer c')) (buffer c)"
proof (induction c evs arbitrary: c' evs' rule: consume.induct)
  case (1 c evs)
  show ?case
  proof (cases "buffer c = []")
    case True
    with "1.prems" show ?thesis by (subst (asm) consume.simps) auto
  next
    case False
    show ?thesis
    proof (cases "readState c = HEADER")
      case True
      show ?thesis
      proof (cases "length (buffer c) < 76")
        case True
        with "1.prems" False \<open>readState c = HEADER\<close> show ?thesis
          by (subst (asm) consume.simps) auto
      next
        case long: False
        from "1.prems" False True long
        have "consume (c\<lparr> deviceInfo := headerInfo (buffer c), readState := STREAMING,
                          buffer := drop 76 (buffer c) \<rparr>)
                (evs @ [Ready (headerInfo (buffer c))]) = (c', evs')"
          by (subst (asm) consume.simps) simp
        from "1.IH"(1) [OF False True long this] long show ?thesis
          by (intro drop_suffix_step [of 76]) simp_all
      qed
    next
      case notH: False
      show ?thesis
      proof (cases "streamState c = PACKET_META")
        case True
        show ?thesis
        proof (cases "length (buffer c) < 12")
          case True
          with "1.prems" False notH \<open>streamState c = PACKET_META\<close> show ?thesis
            by (subst (asm) consume.simps) auto
        next
          case long: False
          from "1.prems" False notH True long
          have "consume (c\<lparr> currentPacketSize := be32 (buffer c) 8, streamState := PACKET_DATA,
                          buffer := drop 12 (buffer c) \<rparr>) evs = (c', evs')"
            by (subst (asm) consume.simps) simp
          from "1.IH"(2) [OF False notH True long this] long show ?thesis
            by (intro drop_suffix_step [of 12]) simp_all
        qed
      next
        case notM: False
        show ?thesis
        proof (cases "length (buffer c) < currentPacketSize c")
          case True
          with "1.prems" False notH notM show ?thesis
            by (subst (asm) consume.simps) auto
        next
          case long: False
          from "1.prems" False notH notM long
          have "consume (c\<lparr> streamState := PACKET_META,
                          buffer := drop (currentPacketSize c) (buffer c) \<rparr>)
                (evs @ [VideoData (take (currentPacketSize c) (buffer c))]) = (c', evs')"
            by (subst (asm) consume.simps) simp
          from "1.IH"(3) [OF False notH notM long this] long show ?thesis
            by (intro drop_suffix_step [of "currentPacketSize c"]) simp_all
        qed
      qed
    qed
  qed
qed

lemma processData_consume:
  "processData c chunk = Inr (consume (c\<lparr> buffer := buffer c @ chunk \<rparr>) [])"
proof -
  obtain c' evs' where r: "consume (c\<lparr> buffer := buffer c @ chunk \<rparr>) [] = (c', evs')"
    by (cases "consume (c\<lparr> buffer := buffer c @ chunk \<rparr>) []")
  from consume_suffix [OF r]
  have le: "length (buffer c') \<le> length (buffer c) + length chunk"
    and eq: "buffer c' = drop (length (buffer c) + length chunk - length (buffer c')) (buffer c @ chunk)"
    by simp_all
  have c1: "(if length (buffer c) > 0 then c\<lparr> buffer := buffer c @ chunk \<rparr> else c\<lparr> buffer := chunk \<rparr>)
        = c\<lparr> buffer := buffer c @ chunk \<rparr>"
    by simp
  have loop: "processLoop (c\<lparr> buffer := buffer c @ chunk \<rparr>) 0 (length (buffer c) + length chunk) []
      = Inr (c'\<lparr> buffer := buffer c @ chunk \<rparr>, length (buffer c) + length chunk - length (buffer c'), evs')"
    using processLoop_consume [of 0 "length (buffer c @ chunk)" "c\<lparr> buffer := buffer c @ chunk \<rparr>" "[]"] r
    by simp
  have "c'\<lparr> buffer := drop (length (buffer c) + length chunk - length (buffer c')) (buffer c @ chunk) \<rparr> = c'"
    using eq by simp
  moreover have "length (buffer c') = 0 \<Longrightarrow> c'\<lparr> buffer := [] \<rparr> = c'"
    by simp
  moreover have "length (buffer c') = length (buffer c) + length chunk \<Longrightarrow> c'\<lparr> buffer := buffer c @ chunk \<rparr> = c'"
    using eq by simp
  moreover have len1: "length (buffer (c\<lparr> buffer := buffer c @ chunk \<rparr>)) = length (buffer c) + length chunk"
    by simp
  ultimately show ?thesis
    using le
    apply (simp only: processData_def c1 Let_def len1 loop sum.case prod.case)
    apply (auto simp del: drop_append simp: r)
    done
qed


lemma consume_rest: "atRest c \<Longrightarrow> consume c evs = (c, evs)"
  by (subst consume.simps) (simp add: atRest_def split: if_splits)

lemma not_atRest:
  "\<not> atRest c \<Longrightarrow> buffer c \<noteq> []"
  "\<not> atRest c \<Longrightarrow> readState c = HEADER \<Longrightarrow> \<not> length (buffer c) < 76"
  "\<not> atRest c \<Longrightarrow> readState c = STREAMING \<Longrightarrow> streamState c = PACKET_META \<Longrightarrow>
     \<not> length (buffer c) < 12"
  "\<not> atRest c \<Longrightarrow> readState c = STREAMING \<Longrightarrow> streamState c = PACKET_DATA \<Longrightarrow>
     \<not> length (buffer c) < currentPacketSize c"
  by (simp_all add: atRest_def split: if_splits)

lemma consume_header:
  assumes "\<not> atRest c" "readState c = HEADER"
  shows "consume c evs = consume (headerStep c) (evs @ [Ready (headerInfo (buffer c))])"
  using not_atRest(1) [OF assms(1)] not_atRest(2) [OF assms] assms(2)
  by (subst consume.simps) (simp add: headerStep_def)

lemma consume_meta:
  assumes "\<not> atRest c" "readState c = STREAMING" "streamState c = PACKET_META"
  shows "consume c evs = consume (metaStep c) evs"
  using not_atRest(1) [OF assms(1)] not_atRest(3) [OF assms] assms(2,3)
  by (subst consume.simps) (simp add: metaStep_def)

lemma consume_data:
  assumes "\<not> atRest c" "readState c = STREAMING" "streamState c = PACKET_DATA"
  shows "consume c evs =
     consume (dataStep c) (evs @ [VideoData (take (currentPacketSize c) (buffer c))])"
  using not_atRest(1) [OF assms(1)] not_atRest(4) [OF assms] assms(2,3)
  by (subst consume.simps) (simp add: dataStep_def)

lemma consume_induct [case_names rest header meta data]:
  assumes "\<And>c. atRest c \<Longrightarrow> P c"
    and "\<And>c. \<not> atRest c \<Longrightarrow> readState c = HEADER \<Longrightarrow> 76 \<le> length (buffer c) \<Longrightarrow>
           P (headerStep c) \<Longrightarrow> P c"
    and "\<And>c. \<not> atRest c \<Longrightarrow> readState c = STREAMING \<Longrightarrow> streamState c = PACKET_META \<Longrightarrow>
           12 \<le> length (buffer c) \<Longrightarrow> P (metaStep c) \<Longrightarrow> P c"
    and "\<And>c. \<not> atRest c \<Longrightarrow> readState c = STREAMING \<Longrightarrow> streamState c = PACKET_DATA \<Longrightarrow>
           currentPacketSize c \<le> length (buffer c) \<Longrightarrow> buffer c \<noteq> [] \<Longrightarrow>
           P (dataStep c) \<Longrightarrow> P c"
  shows "P c"
proof -
  have "P c" for evs :: "event list"
  proof (induction c evs rule: consume.induct)
    case (1 c evs)
    show ?case
    proof (cases "atRest c")
      case True
      then show ?thesis by (rule assms(1))
    next
      case False
      then have ne: "buffer c \<noteq> []" by (auto simp: atRest_def)
      show ?thesis
      proof (cases "readState c")
        case HEADER
        with False ne have long: "\<not> length (buffer c) < 76" by (auto simp: atRest_def)
        have "P (headerStep c)"
          using "1.IH"(1) [OF ne HEADER long] by (simp add: headerStep_def)
        with False HEADER long show ?thesis
          by (rule_tac assms(2)) simp_all
      next
        case STREAMING
        then have notH: "readState c \<noteq> HEADER" by simp
        show ?thesis
        proof (cases "streamState c")
          case PACKET_META
          with False ne notH have long: "\<not> length (buffer c) < 12" by (auto simp: atRest_def)
          have "P (metaStep c)"
            using "1.IH"(2) [OF ne notH PACKET_META long] by (simp add: metaStep_def)
          with False STREAMING PACKET_META long show ?thesis
            by (rule_tac assms(3)) simp_all
        next
          case PACKET_DATA
          then have notM: "streamState c \<noteq> PACKET_META" by simp
          with False ne notH have long: "\<not> length (buffer c) < currentPacketSize c"
            by (auto simp: atRest_def)
          have "P (dataStep c)"
            using "1.IH"(3) [OF ne notH notM long] by (simp add: dataStep_def)
          with False STREAMING PACKET_DATA long ne show ?thesis
            by (rule_tac assms(4)) simp_all
        qed
      qed
    qed
  qed
  then show ?thesis .
qed

lemma consume_acc: "consume c evs = (fst (consume c []), evs @ snd (consume c []))"
proof (induction c arbitrary: evs rule: consume_induct)
  case (rest c)
  then show ?case by (simp add: consume_rest)
next
  case (header c)
  show ?case
    using header(4) [of "evs @ [Ready (headerInfo (buffer c))]"]
      header(4) [of "[Ready (headerInfo (buffer c))]"]
    by (simp add: consume_header [OF header(1,2)])
next
  case (meta c)
  show ?case
    using meta(5) [of evs] by (simp add: consume_meta [OF meta(1,2,3)])
next
  case (data c)
  show ?case
    using data(6) [of "evs @ [VideoData (take (currentPacketSize c) (buffer c))]"]
      data(6) [of "[VideoData (take (currentPacketSize c) (buffer c))]"]
    by (simp add: consume_data [OF data(1,2,3)])
qed


lemma be32_append: "off + 4 \<le> length b \<Longrightarrow> be32 (b @ ys) off = be32 b off"
  by (simp add: be32_def nth_append)

lemma headerInfo_append: "76 \<le> length b \<Longrightarrow> headerInfo (b @ ys) = headerInfo b"
  by (simp add: headerInfo_def be32_append)

lemma atRest_append:
  "\<not> atRest c \<Longrightarrow> \<not> atRest (c\<lparr> buffer := buffer c @ ys \<rparr>)"
  by (auto simp: atRest_def split: if_splits)

lemma headerStep_append:
  "76 \<le> length (buffer c) \<Longrightarrow>
   headerStep (c\<lparr> buffer := buffer c @ ys \<rparr>) =
   (headerStep c)\<lparr> buffer := buffer (headerStep c) @ ys \<rparr>"
  by (simp add: headerStep_def headerInfo_append)

lemma metaStep_append:
  "12 \<le> length (buffer c) \<Longrightarrow>
   metaStep (c\<lparr> buffer := buffer c @ ys \<rparr>) =
   (metaStep c)\<lparr> buffer := buffer (metaStep c) @ ys \<rparr>"
  by (simp add: metaStep_def be32_append)

lemma dataStep_append:
  "currentPacketSize c \<le> length (buffer c) \<Longrightarrow>
   dataStep (c\<lparr> buffer := buffer c @ ys \<rparr>) =
   (dataStep c)\<lparr> buffer := buffer (dataStep c) @ ys \<rparr>"
  by (simp add: dataStep_def)

lemma consume_append:
  "consume (c\<lparr> buffer := buffer c @ ys \<rparr>) evs =
     (case consume c evs of (c', evs') \<Rightarrow> consume (c'\<lparr> buffer := buffer c' @ ys \<rparr>) evs')"
proof (induction c arbitrary: evs rule: consume_induct)
  case (rest c)
  then show ?case by (simp add: consume_rest)
next
  case (header c)
  have "consume (c\<lparr> buffer := buffer c @ ys \<rparr>) evs =
        consume (headerStep (c\<lparr> buffer := buffer c @ ys \<rparr>))
          (evs @ [Ready (headerInfo (buffer c @ ys))])"
    using consume_header [OF atRest_append [OF header(1)], of ys evs] header(2) by simp
  then show ?case
    using header(3,4) by (simp add: headerStep_append headerInfo_append consume_header [OF header(1,2)])
next
  case (meta c)
  have "consume (c\<lparr> buffer := buffer c @ ys \<rparr>) evs =
        consume (metaStep (c\<lparr> buffer := buffer c @ ys \<rparr>)) evs"
    using consume_meta [OF atRest_append [OF meta(1)], of ys evs] meta(2,3) by simp
  then show ?case
    using meta(4,5) by (simp add: metaStep_append consume_meta [OF meta(1,2,3)])
next
  case (data c)
  have "consume (c\<lparr> buffer := buffer c @ ys \<rparr>) evs =
        consume (dataStep (c\<lparr> buffer := buffer c @ ys \<rparr>))
          (evs @ [VideoData (take (currentPacketSize c) (buffer c @ ys))])"
    using consume_data [OF atRest_append [OF data(1)], of ys evs] data(2,3) by simp
  then show ?case
    using data(4,6) by (simp add: dataStep_append consume_data [OF data(1,2,3)])
qed

lemma atRest_consume: "atRest (fst (consume c evs))"
proof (induction c arbitrary: evs rule: consume_induct)
  case (rest c)
  then show ?case by (simp add: consume_rest)
next
  case (header c)
  then show ?case by (simp add: consume_header)
next
  case (meta c)
  then show ?case by (simp add: consume_meta)
next
  case (data c)
  then show ?case by (simp add: consume_data)
qed

lemma feed_consume:
  "atRest c \<Longrightarrow> feed c chunks = Inr (consume (c\<lparr> buffer := buffer c @ concat chunks \<rparr>) [])"
proof (induction chunks arbitrary: c)
  case Nil
  then show ?case by (simp add: consume_rest)
next
  case (Cons x xs)
  obtain c1 e1 where r1: "consume (c\<lparr> buffer := buffer c @ x \<rparr>) [] = (c1, e1)"
    by (cases "consume (c\<lparr> buffer := buffer c @ x \<rparr>) []")
  have "atRest c1"
    using atRest_consume [of "c\<lparr> buffer := buffer c @ x \<rparr>" "[]"] r1 by simp
  from Cons.IH [OF this]
  have r2: "feed c1 xs = Inr (consume (c1\<lparr> buffer := buffer c1 @ concat xs \<rparr>) [])" .
  have "consume (c\<lparr> buffer := buffer c @ x @ concat xs \<rparr>) [] =
        consume (c1\<lparr> buffer := buffer c1 @ concat xs \<rparr>) e1"
    using consume_append [of "c\<lparr> buffer := buffer c @ x \<rparr>" "concat xs" "[]"] r1 by simp
  also have "\<dots> = (fst (consume (c1\<lparr> buffer := buffer c1 @ concat xs \<rparr>) []),
      e1 @ snd (consume (c1\<lparr> buffer := buffer c1 @ concat xs \<rparr>) []))"
    by (rule consume_acc)
  finally show ?case
    by (simp add: processData_consume r1 r2 split: prod.splits)
qed

lemma atRest_newClient: "atRest (newClient s p)"
  by (simp add: atRest_def newClient_def)

section \<open>The claims\<close>

lemma consume_header':
  assumes "readState c = HEADER" "76 \<le> length (buffer c)"
  shows "consume c evs = consume (headerStep c) (evs @ [Ready (headerInfo (buffer c))])"
proof -
  from assms have "\<not> atRest c" by (auto simp: atRest_def)
  then show ?thesis using assms(1) by (rule consume_header)
qed

lemma consume_meta':
  assumes "readState c = STREAMING" "streamState c = PACKET_META" "12 \<le> length (buffer c)"
  shows "consume c evs = consume (metaStep c) evs"
proof -
  from assms have "\<not> atRest c" by (auto simp: atRest_def)
  then show ?thesis using assms(1,2) by (rule consume_meta)
qed

lemma consume_data':
  assumes "readState c = STREAMING" "streamState c = PACKET_DATA"
    "currentPacketSize c \<le> length (buffer c)" "buffer c \<noteq> []"
  shows "consume c evs =
     consume (dataStep c) (evs @ [VideoData (take (currentPacketSize c) (buffer c))])"
proof -
  from assms have "\<not> atRest c" by (auto simp: atRest_def)
  then show ?thesis using assms(1,2) by (rule consume_data)
qed

lemma atRest_data:
  "readState c = STREAMING \<Longrightarrow> streamState c = PACKET_DATA \<Longrightarrow>
   length (buffer c) < currentPacketSize c \<Longrightarrow> atRest c"
  by (simp add: atRest_def)

lemma atRest_empty: "buffer c = [] \<Longrightarrow> atRest c"
  by (simp add: atRest_def)

lemma newClient_sel [simp]:
  "buffer (newClient s p) = []" "readState (newClient s p) = HEADER"
  "streamState (newClient s p) = PACKET_META" "currentPacketSize (newClient s p) = 0"
  "socket (newClient s p) = False" "width (deviceInfo (newClient s p)) = 0"
  by (simp_all add: newClient_def)

lemma feed_newClient:
  "feed (newClient s p) chunks = Inr (consume ((newClient s p)\<lparr> buffer := concat chunks \<rparr>) [])"
  using feed_consume [OF atRest_newClient, of s p chunks] by simp

lemma readUInt32BE_be32: "off + 4 \<le> length b \<Longrightarrow> readUInt32BE b off = Inr (be32 b off)"
  by (simp add: readUInt32BE_def be32_def)

lemma readUInt32BE_Inr: "readUInt32BE b off = Inr n \<Longrightarrow> be32 b off = n \<and> off + 4 \<le> length b"
  by (auto simp: readUInt32BE_def be32_def split: if_splits)

lemma consume_streaming_events:
  "readState c = STREAMING \<Longrightarrow> \<exists>vs. snd (consume c evs) = evs @ map VideoData vs"
proof (induction c arbitrary: evs rule: consume_induct)
  case (rest c)
  then show ?case by (simp add: consume_rest)
next
  case (header c)
  then show ?case by simp
next
  case (meta c)
  have "readState (metaStep c) = STREAMING"
    using meta(2) by (simp add: metaStep_def)
  from meta(5) [OF this, of evs] show ?case
    by (simp add: consume_meta [OF meta(1,2,3)])
next
  case (data c)
  have "readState (dataStep c) = STREAMING"
    using data(2) by (simp add: dataStep_def)
  from data(6) [OF this, of "evs @ [VideoData (take (currentPacketSize c) (buffer c))]"]
  obtain vs where "snd (consume (dataStep c) (evs @ [VideoData (take (currentPacketSize c) (buffer c))]))
      = (evs @ [VideoData (take (currentPacketSize c) (buffer c))]) @ map VideoData vs"
    by blast
  then have "snd (consume c evs) = evs @ map VideoData (take (currentPacketSize c) (buffer c) # vs)"
    by (simp add: consume_data [OF data(1,2,3)])
  then show ?case by blast
qed

lemma consume_streaming_state:
  "readState c = STREAMING \<Longrightarrow>
   deviceInfo (fst (consume c evs)) = deviceInfo c \<and> readState (fst (consume c evs)) = STREAMING"
proof (induction c arbitrary: evs rule: consume_induct)
  case (rest c)
  then show ?case by (simp add: consume_rest)
next
  case (header c)
  then show ?case by simp
next
  case (meta c)
  have "readState (metaStep c) = STREAMING" "deviceInfo (metaStep c) = deviceInfo c"
    using meta(2) by (simp_all add: metaStep_def)
  with meta(5) [of evs] show ?case
    by (simp add: consume_meta [OF meta(1,2,3)])
next
  case (data c)
  have "readState (dataStep c) = STREAMING" "deviceInfo (dataStep c) = deviceInfo c"
    using data(2) by (simp_all add: dataStep_def)
  with data(6) [of "evs @ [VideoData (take (currentPacketSize c) (buffer c))]"] show ?case
    by (simp add: consume_data [OF data(1,2,3)])
qed

text \<open>
  Claim C6, as the code has it. Take any stream, cut into chunks in any way and fed to a
  new client. If the stream has at least 76 bytes, the first event is the one
  \<open>Ready\<close> event and every later event is a video packet; its name is the text of bytes
  0 to 63 with every NUL removed (not only the trailing ones), its width and height are
  the big-endian numbers at bytes 68 and 72, bytes 64 to 67 are not read, and the client
  keeps the same device info. If the stream has fewer than 76 bytes, nothing is emitted
  and the client still waits for the header.
\<close>

theorem device_info_first:
  "(76 \<le> length (concat chunks) \<longrightarrow>
      (\<exists>c' w h vs.
         readUInt32BE (concat chunks) 68 = Inr w \<and> readUInt32BE (concat chunks) 72 = Inr h \<and>
         feed (newClient s p) chunks =
           Inr (c', Ready \<lparr> name = removeNul (toString_utf8 (subarray (concat chunks) 0 64)),
                             width = w, height = h \<rparr> # map VideoData vs) \<and>
         deviceInfo c' = \<lparr> name = removeNul (toString_utf8 (subarray (concat chunks) 0 64)),
                            width = w, height = h \<rparr>)) \<and>
   (length (concat chunks) < 76 \<longrightarrow>
      (\<exists>c'. feed (newClient s p) chunks = Inr (c', []) \<and> readState c' = HEADER))"
proof (intro conjI impI)
  let ?b = "concat chunks"
  let ?c = "(newClient s p)\<lparr> buffer := ?b \<rparr>"
  assume long: "76 \<le> length ?b"
  have hi: "headerInfo ?b = \<lparr> name = removeNul (toString_utf8 (subarray ?b 0 64)),
                             width = be32 ?b 68, height = be32 ?b 72 \<rparr>"
    by (simp add: headerInfo_def subarray_def)
  have step: "consume ?c [] = consume (headerStep ?c) [Ready (headerInfo ?b)]"
    using consume_header' [of ?c "[]"] long by simp
  have st: "readState (headerStep ?c) = STREAMING"
    by (simp add: headerStep_def)
  from consume_streaming_events [OF st, of "[Ready (headerInfo ?b)]"]
  obtain vs where vs: "snd (consume (headerStep ?c) [Ready (headerInfo ?b)])
      = [Ready (headerInfo ?b)] @ map VideoData vs"
    by blast
  show "\<exists>c' w h vs.
         readUInt32BE ?b 68 = Inr w \<and> readUInt32BE ?b 72 = Inr h \<and>
         feed (newClient s p) chunks =
           Inr (c', Ready \<lparr> name = removeNul (toString_utf8 (subarray ?b 0 64)),
                             width = w, height = h \<rparr> # map VideoData vs) \<and>
         deviceInfo c' = \<lparr> name = removeNul (toString_utf8 (subarray ?b 0 64)),
                            width = w, height = h \<rparr>"
  proof (intro exI conjI)
    show "readUInt32BE ?b 68 = Inr (be32 ?b 68)" "readUInt32BE ?b 72 = Inr (be32 ?b 72)"
      using long by (simp_all add: readUInt32BE_be32)
    show "feed (newClient s p) chunks =
        Inr (fst (consume (headerStep ?c) [Ready (headerInfo ?b)]),
             Ready \<lparr> name = removeNul (toString_utf8 (subarray ?b 0 64)),
                      width = be32 ?b 68, height = be32 ?b 72 \<rparr> # map VideoData vs)"
      using vs by (simp add: feed_newClient step hi [symmetric] prod_eq_iff)
    show "deviceInfo (fst (consume (headerStep ?c) [Ready (headerInfo ?b)])) =
        \<lparr> name = removeNul (toString_utf8 (subarray ?b 0 64)),
          width = be32 ?b 68, height = be32 ?b 72 \<rparr>"
      using consume_streaming_state [OF st, of "[Ready (headerInfo ?b)]"]
      by (simp add: hi [symmetric]) (simp add: headerStep_def)
  qed
next
  assume short: "length (concat chunks) < 76"
  have "atRest ((newClient s p)\<lparr> buffer := concat chunks \<rparr>)"
    using short by (simp add: atRest_def)
  then show "\<exists>c'. feed (newClient s p) chunks = Inr (c', []) \<and> readState c' = HEADER"
    by (simp add: feed_newClient consume_rest)
qed


text \<open>
  Claim C5. A 76-byte header, a 12-byte meta that declares the length of \<open>payload\<close>, and
  only the first \<open>k\<close> bytes of the payload (fewer than declared), in any chunking, emit
  the \<open>Ready\<close> event and no video packet: the \<open>k\<close> bytes stay buffered with the declared
  size. The remaining bytes, in any chunking, then emit exactly one video packet, the
  whole payload. The claim's example is \<open>k = 3\<close> of 5 bytes. In general, a client that
  waits for packet data and has fewer bytes than declared keeps them all and emits
  nothing, and a video packet emitted from that state has exactly the declared size,
  which the buffered bytes cover.
\<close>

theorem framer_liveness:
  assumes hdr: "length hdr = 76"
    and meta: "length meta = 12" "readUInt32BE meta 8 = Inr (length payload)"
    and k: "k < length payload"
    and ch1: "concat chunks1 = hdr @ meta @ take k payload"
    and ch2: "concat chunks2 = drop k payload"
  shows "(\<exists>c1 c2 info.
            feed (newClient s p) chunks1 = Inr (c1, [Ready info]) \<and>
            buffer c1 = take k payload \<and> currentPacketSize c1 = length payload \<and>
            streamState c1 = PACKET_DATA \<and>
            feed c1 chunks2 = Inr (c2, [VideoData payload]) \<and>
            buffer c2 = [] \<and> streamState c2 = PACKET_META) \<and>
         (\<forall>c chunk.
            readState c = STREAMING \<and> streamState c = PACKET_DATA \<and>
            length (buffer c) + length chunk < currentPacketSize c \<longrightarrow>
            processData c chunk = Inr (c\<lparr> buffer := buffer c @ chunk \<rparr>, [])) \<and>
         (\<forall>c chunk c' v evs.
            readState c = STREAMING \<and> streamState c = PACKET_DATA \<and>
            processData c chunk = Inr (c', VideoData v # evs) \<longrightarrow>
            length v = currentPacketSize c \<and>
            currentPacketSize c \<le> length (buffer c) + length chunk)"
proof (intro conjI allI impI)
  let ?n = "length payload"
  let ?info = "headerInfo hdr"
  let ?c0 = "(newClient s p)\<lparr> buffer := hdr @ meta @ take k payload \<rparr>"
  let ?c1 = "(newClient s p)\<lparr> deviceInfo := ?info, readState := STREAMING,
                buffer := meta @ take k payload \<rparr>"
  let ?c2 = "(newClient s p)\<lparr> deviceInfo := ?info, readState := STREAMING,
                currentPacketSize := ?n, streamState := PACKET_DATA,
                buffer := take k payload \<rparr>"
  let ?c3 = "(newClient s p)\<lparr> deviceInfo := ?info, readState := STREAMING,
                currentPacketSize := ?n, streamState := PACKET_DATA,
                buffer := payload \<rparr>"
  let ?c4 = "(newClient s p)\<lparr> deviceInfo := ?info, readState := STREAMING,
                currentPacketSize := ?n, streamState := PACKET_META,
                buffer := [] \<rparr>"
  have be: "be32 (meta @ take k payload) 8 = ?n"
    using readUInt32BE_Inr [OF meta(2)] meta(1) by (simp add: be32_append)
  have s0: "consume ?c0 [] = consume ?c1 [Ready ?info]"
    using consume_header' [of ?c0 "[]"] hdr
    by (simp add: headerStep_def headerInfo_append)
  have s1: "consume ?c1 evs = consume ?c2 evs" for evs
    using consume_meta' [of ?c1 evs] meta(1) be by (simp add: metaStep_def)
  have r2: "atRest ?c2"
    using k by (intro atRest_data) simp_all
  have f1: "feed (newClient s p) chunks1 = Inr (?c2, [Ready ?info])"
    by (simp add: feed_newClient ch1 s0 s1 consume_rest [OF r2])
  have ne: "payload \<noteq> []"
    using k by auto
  have s3: "consume ?c3 [] = consume ?c4 [VideoData payload]"
    using consume_data' [of ?c3 "[]"] ne by (simp add: dataStep_def)
  have r4: "atRest ?c4"
    by (rule atRest_empty) simp
  have f2: "feed ?c2 chunks2 = Inr (?c4, [VideoData payload])"
    using feed_consume [OF r2, of chunks2] by (simp add: ch2 s3 consume_rest [OF r4])
  show "\<exists>c1 c2 info.
            feed (newClient s p) chunks1 = Inr (c1, [Ready info]) \<and>
            buffer c1 = take k payload \<and> currentPacketSize c1 = length payload \<and>
            streamState c1 = PACKET_DATA \<and>
            feed c1 chunks2 = Inr (c2, [VideoData payload]) \<and>
            buffer c2 = [] \<and> streamState c2 = PACKET_META"
    using f1 f2 by (intro exI [of _ ?c2] exI [of _ ?c4] exI [of _ ?info]) simp
next
  fix c :: ScrcpyClient and chunk :: Buffer
  assume a: "readState c = STREAMING \<and> streamState c = PACKET_DATA \<and>
            length (buffer c) + length chunk < currentPacketSize c"
  then have "atRest (c\<lparr> buffer := buffer c @ chunk \<rparr>)"
    by (intro atRest_data) simp_all
  then show "processData c chunk = Inr (c\<lparr> buffer := buffer c @ chunk \<rparr>, [])"
    by (simp add: processData_consume consume_rest)
next
  fix c c' :: ScrcpyClient and chunk v :: Buffer and evs :: "event list"
  assume a: "readState c = STREAMING \<and> streamState c = PACKET_DATA \<and>
            processData c chunk = Inr (c', VideoData v # evs)"
  let ?c = "c\<lparr> buffer := buffer c @ chunk \<rparr>"
  from a have r: "consume ?c [] = (c', VideoData v # evs)"
    by (simp add: processData_consume)
  have nr: "\<not> atRest ?c"
    using r consume_rest [of ?c "[]"] by auto
  then have d: "consume ?c [] = consume (dataStep ?c) [VideoData (take (currentPacketSize c) (buffer c @ chunk))]"
    using consume_data [of ?c "[]"] a by simp
  have "snd (consume ?c []) = [VideoData (take (currentPacketSize c) (buffer c @ chunk))]
      @ snd (consume (dataStep ?c) [])"
    by (subst d, subst consume_acc) simp
  with r have v: "v = take (currentPacketSize c) (buffer c @ chunk)"
    by simp
  have le: "currentPacketSize c \<le> length (buffer c) + length chunk"
    using not_atRest(4) [OF nr] a by simp
  show "length v = currentPacketSize c" using v le by simp
  show "currentPacketSize c \<le> length (buffer c) + length chunk" by (rule le)
qed



lemma utf8_decode_zeros: "utf8_decode 0 0 128 191 (replicate n 0) = replicate n 0"
  by (induction n) simp_all

lemma dropWhile_replicate_eq:
  "dropWhile (\<lambda>u. u = x) (replicate n x @ ys) = dropWhile (\<lambda>u. u = x) ys"
  by (induction n) simp_all

lemma utf8_decode_ascii:
  "unat b \<le> 127 \<Longrightarrow> utf8_decode 0 0 128 191 (b # bs) = unat b # utf8_decode 0 0 128 191 bs"
  by simp

lemma feed_header_only:
  assumes "length hdr = 76"
  shows "feed (newClient s p) [hdr] =
     Inr ((newClient s p)\<lparr> deviceInfo := headerInfo hdr, readState := STREAMING \<rparr>,
          [Ready (headerInfo hdr)])"
proof -
  let ?c0 = "(newClient s p)\<lparr> buffer := hdr \<rparr>"
  let ?c1 = "(newClient s p)\<lparr> deviceInfo := headerInfo hdr, readState := STREAMING \<rparr>"
  have "headerStep ?c0 = ?c1"
    using assms by (simp add: headerStep_def newClient_def)
  then have "consume ?c0 [] = consume ?c1 [Ready (headerInfo hdr)]"
    using consume_header' [of ?c0 "[]"] assms by simp
  also have "\<dots> = (?c1, [Ready (headerInfo hdr)])"
    by (rule consume_rest, rule atRest_empty) simp
  finally show ?thesis
    unfolding feed_newClient by simp
qed

lemma feed_meta_pending:
  assumes "readState c = STREAMING" "streamState c = PACKET_META" "buffer c = []"
    and "length meta = 12" "readUInt32BE meta 8 = Inr n" "length (concat chunks) < n"
  shows "feed c (meta # chunks) =
     Inr (c\<lparr> currentPacketSize := n, streamState := PACKET_DATA, buffer := concat chunks \<rparr>, [])"
proof -
  let ?c0 = "c\<lparr> buffer := meta @ concat chunks \<rparr>"
  let ?c1 = "c\<lparr> currentPacketSize := n, streamState := PACKET_DATA, buffer := concat chunks \<rparr>"
  have be: "be32 (meta @ concat chunks) 8 = n"
    using readUInt32BE_Inr [OF assms(5)] assms(4) by (simp add: be32_append)
  have "consume ?c0 [] = consume ?c1 []"
    using consume_meta' [of ?c0 "[]"] assms(1,2,4) be by (simp add: metaStep_def)
  moreover have "atRest ?c1"
    using assms(1,6) by (intro atRest_data) simp_all
  moreover have "atRest c"
    using assms(3) by (rule atRest_empty)
  ultimately show ?thesis
    using feed_consume [of c "meta # chunks"] assms(3) by (simp add: consume_rest)
qed

lemma ex_header_zero: "headerInfo (replicate 76 0) = \<lparr> name = [], width = 0, height = 0 \<rparr>"
  by (simp add: headerInfo_def be32_def utf8_decode_zeros toString_utf8_def removeNul_def)

text \<open>
  Claim C2 does not hold: a meta whose size field is \<open>0xFFFFFFFF\<close> raises nothing. The
  client records 4294967295 as the packet size and buffers the bytes that follow.
\<close>

theorem framing_error_counterexample:
  "feed (newClient ''A'' 27183)
     [replicate 76 0, [0, 0, 0, 0, 0, 0, 0, 0, 255, 255, 255, 255], [1, 2, 3]] =
   Inr ((newClient ''A'' 27183)
          \<lparr> deviceInfo := \<lparr> name = [], width = 0, height = 0 \<rparr>, readState := STREAMING,
            currentPacketSize := 4294967295, streamState := PACKET_DATA,
            buffer := [1, 2, 3] \<rparr>,
        [Ready \<lparr> name = [], width = 0, height = 0 \<rparr>])"
proof -
  let ?c1 = "(newClient ''A'' 27183)
      \<lparr> deviceInfo := \<lparr> name = [], width = 0, height = 0 \<rparr>, readState := STREAMING \<rparr>"
  have 1: "processData (newClient ''A'' 27183) (replicate 76 0) =
      Inr (?c1, [Ready \<lparr> name = [], width = 0, height = 0 \<rparr>])"
    using feed_header_only [of "replicate 76 0" "''A''" 27183]
    by (simp add: ex_header_zero split: sum.splits prod.splits)
  have 2: "feed ?c1 ([0, 0, 0, 0, 0, 0, 0, 0, 255, 255, 255, 255] # [[1, 2, 3]]) =
      Inr (?c1\<lparr> currentPacketSize := 4294967295, streamState := PACKET_DATA,
                buffer := concat [[1, 2, 3]] \<rparr>, [])"
    by (rule feed_meta_pending) (simp_all add: readUInt32BE_def)
  show ?thesis
    using 1 2 by simp
qed

text \<open>
  Claim C6 as stated does not hold for a name field with a NUL between other bytes:
  the code removes that NUL too, where stripping the trailing ones would keep it.
\<close>

theorem name_nul_counterexample:
  "feed (newClient ''A'' 27183) [[97, 0, 98] @ replicate 73 0] =
     Inr ((newClient ''A'' 27183)
            \<lparr> deviceInfo := \<lparr> name = [97, 98], width = 0, height = 0 \<rparr>,
              readState := STREAMING \<rparr>,
          [Ready \<lparr> name = [97, 98], width = 0, height = 0 \<rparr>]) \<and>
   stripTrailingNul (toString_utf8 (subarray ([97, 0, 98] @ replicate 73 0) 0 64)) = [97, 0, 98] \<and>
   stripTrailingNul (toString_utf8 (subarray ([97, 0, 98] @ replicate 73 0) 0 64)) \<noteq> [97, 98]"
proof (intro conjI)
  have d: "toString_utf8 (97 # 0 # 98 # replicate 61 0) = 97 # 0 # 98 # replicate 61 0"
    by (simp add: toString_utf8_def utf8_decode_zeros)
  have h: "headerInfo (97 # 0 # 98 # replicate 73 0) = \<lparr> name = [97, 98], width = 0, height = 0 \<rparr>"
    by (simp add: headerInfo_def d removeNul_def be32_def)
  show "feed (newClient ''A'' 27183) [[97, 0, 98] @ replicate 73 0] =
     Inr ((newClient ''A'' 27183)
            \<lparr> deviceInfo := \<lparr> name = [97, 98], width = 0, height = 0 \<rparr>,
              readState := STREAMING \<rparr>,
          [Ready \<lparr> name = [97, 98], width = 0, height = 0 \<rparr>])"
    by (subst feed_header_only) (simp_all add: h)
  show e: "stripTrailingNul (toString_utf8 (subarray ([97, 0, 98] @ replicate 73 0) 0 64)) = [97, 0, 98]"
    by (simp add: subarray_def d stripTrailingNul_def dropWhile_replicate_eq)
  show "stripTrailingNul (toString_utf8 (subarray ([97, 0, 98] @ replicate 73 0) 0 64)) \<noteq> [97, 98]"
    unfolding e by simp
qed


text \<open>
  Claim C2, as the code has it. There is no payload ceiling and no framing error. At a
  packet boundary a meta that declares any size \<open>n\<close> makes the client wait for \<open>n\<close>
  bytes: as long as fewer have followed, every chunk is kept in the buffer, nothing is
  emitted and nothing is raised. \<open>_processData\<close> returns normally on every input.
\<close>

theorem no_size_ceiling:
  assumes "readState c = STREAMING" "streamState c = PACKET_META" "buffer c = []"
    and "length meta = 12" "readUInt32BE meta 8 = Inr n" "length (concat chunks) < n"
  shows "feed c (meta # chunks) =
           Inr (c\<lparr> currentPacketSize := n, streamState := PACKET_DATA,
                  buffer := concat chunks \<rparr>, []) \<and>
         (\<forall>c' chunk. \<exists>r. processData c' chunk = Inr r)"
  using feed_meta_pending [OF assms] by (simp add: processData_consume)

text \<open>The size \<open>0xFFFFFFFF\<close> with three bytes of payload so far.\<close>

theorem no_size_ceiling_witness:
  "feed ((newClient ''A'' 27183)\<lparr> readState := STREAMING \<rparr>)
     [[0, 0, 0, 0, 0, 0, 0, 0, 255, 255, 255, 255], [1, 2, 3]] =
   Inr ((newClient ''A'' 27183)
          \<lparr> readState := STREAMING, currentPacketSize := 4294967295,
            streamState := PACKET_DATA, buffer := [1, 2, 3] \<rparr>, [])"
  using no_size_ceiling [of "(newClient ''A'' 27183)\<lparr> readState := STREAMING \<rparr>"
      "[0, 0, 0, 0, 0, 0, 0, 0, 255, 255, 255, 255]" 4294967295 "[[1, 2, 3]]"]
  by (simp add: readUInt32BE_def)

text \<open>The example of claim C5: size 5, first 3 bytes, then the other 2.\<close>

theorem framer_liveness_witness:
  "\<exists>c1 c2 info.
     feed (newClient ''A'' 27183)
       [replicate 76 0, [0, 0, 0, 0, 0, 0, 0, 0, 0, 0, 0, 5], [1, 2, 3]] = Inr (c1, [Ready info]) \<and>
     buffer c1 = [1, 2, 3] \<and> currentPacketSize c1 = 5 \<and> streamState c1 = PACKET_DATA \<and>
     feed c1 [[4, 5]] = Inr (c2, [VideoData [1, 2, 3, 4, 5]]) \<and>
     buffer c2 = [] \<and> streamState c2 = PACKET_META"
proof -
  let ?hdr = "replicate 76 0 :: Buffer"
  let ?meta = "[0, 0, 0, 0, 0, 0, 0, 0, 0, 0, 0, 5] :: Buffer"
  let ?payload = "[1, 2, 3, 4, 5] :: Buffer"
  have len: "length ?payload = 5" and t: "take 3 ?payload = [1, 2, 3]"
    by simp_all
  have 1: "length ?hdr = 76" and 2: "length ?meta = 12"
    and 3: "readUInt32BE ?meta 8 = Inr (length ?payload)" and 4: "3 < length ?payload"
    and 5: "concat [?hdr, ?meta, [1, 2, 3]] = ?hdr @ ?meta @ take 3 ?payload"
    and 6: "concat [[4, 5]] = drop 3 ?payload"
    by (simp_all add: readUInt32BE_def)
  from framer_liveness [OF 1 2 3 4 5 6, of "''A''" 27183, THEN conjunct1]
  show ?thesis
    unfolding len t .
qed

text \<open>A header for the device \<open>hi\<close> of 1080 by 2400, cut after the name field and
  followed by three more bytes.\<close>

theorem device_info_first_witness:
  "\<exists>c' vs.
     feed (newClient ''A'' 27183)
       [[104, 105] @ replicate 62 0, [0, 0, 0, 0, 0, 0, 4, 56, 0, 0, 9, 96, 1, 2, 3]] =
     Inr (c', Ready \<lparr> name = [104, 105], width = 1080, height = 2400 \<rparr> # map VideoData vs) \<and>
     deviceInfo c' = \<lparr> name = [104, 105], width = 1080, height = 2400 \<rparr>"
proof -
  let ?chunks = "[[104, 105] @ replicate 62 0, [0, 0, 0, 0, 0, 0, 4, 56, 0, 0, 9, 96, 1, 2, 3]] :: Buffer list"
  have n: "removeNul (toString_utf8 (subarray (concat ?chunks) 0 64)) = [104, 105]"
    by (simp add: subarray_def toString_utf8_def utf8_decode_zeros removeNul_def)
  have w: "readUInt32BE (concat ?chunks) 68 = Inr 1080" "readUInt32BE (concat ?chunks) 72 = Inr 2400"
    by (simp_all add: readUInt32BE_def nth_append)
  from device_info_first [of ?chunks "''A''" 27183, THEN conjunct1]
  show ?thesis
    unfolding n w by (simp del: feed.simps)
qed


lemma bytes16:
  assumes "0 \<le> v" "v \<le> 65535"
  shows "nat (v div 256 mod 256) * 256 + nat (v mod 256) = nat v"
proof -
  have "v div 256 < 256" using assms by simp
  moreover have a: "0 \<le> v div 256" using assms by simp
  ultimately have b: "v div 256 mod 256 = v div 256" by simp
  have c: "v = v div 256 * 256 + v mod 256" by simp
  have d: "0 \<le> v mod 256" by simp
  have "nat v = nat (v div 256 * 256 + v mod 256)" using c by simp
  also have "\<dots> = nat (v div 256 * 256) + nat (v mod 256)"
    using a d by (intro nat_add_distrib) simp_all
  also have "nat (v div 256 * 256) = nat (v div 256) * 256"
    using a by (simp add: nat_mult_distrib)
  finally show ?thesis using b by simp
qed

lemma bytes32_mod:
  "(v :: int) mod 4294967296 =
     (v div 16777216 mod 256) * 16777216 + (v div 65536 mod 256) * 65536
     + (v div 256 mod 256) * 256 + v mod 256"
proof -
  have 1: "v mod (256 * 16777216) = 256 * (v div 256 mod 16777216) + v mod 256"
    by (rule zmod_zmult2_eq) simp
  have 2: "(v div 256) mod (256 * 65536) = 256 * (v div 256 div 256 mod 65536) + v div 256 mod 256"
    by (rule zmod_zmult2_eq) simp
  have 3: "(v div 65536) mod (256 * 256) = 256 * (v div 65536 div 256 mod 256) + v div 65536 mod 256"
    by (rule zmod_zmult2_eq) simp
  have 4: "v div 256 div 256 = v div 65536"
    using zdiv_zmult2_eq [of 256 v 256] by simp
  have 5: "v div 65536 div 256 = v div 16777216"
    using zdiv_zmult2_eq [of 256 v 65536] by simp
  have a1: "v mod 4294967296 = 256 * (v div 256 mod 16777216) + v mod 256"
    using 1 by simp
  have a2: "v div 256 mod 16777216 = 256 * (v div 65536 mod 65536) + v div 256 mod 256"
    using 2 unfolding 4 by simp
  have a3: "v div 65536 mod 65536 = 256 * (v div 16777216 mod 256) + v div 65536 mod 256"
    using 3 unfolding 5 by simp
  show ?thesis
    using a1 a2 a3 by linarith
qed


lemma unat_byte_of_int: "unat (of_int v :: byte) = nat (v mod 256)"
  by (simp add: unat_eq_nat_uint uint_word_of_int_eq take_bit_eq_mod)

lemma bytes32_nat:
  "nat (v div 16777216 mod 256) * 16777216 + nat (v div 65536 mod 256) * 65536
     + nat (v div 256 mod 256) * 256 + nat (v mod 256) = nat (v mod 4294967296)"
proof -
  define a b c d where "a = v div 16777216 mod 256" and "b = v div 65536 mod 256"
    and "c = v div 256 mod 256" and "d = v mod 256"
  have nn: "0 \<le> a" "0 \<le> b" "0 \<le> c" "0 \<le> d"
    by (simp_all add: a_def b_def c_def d_def)
  have e1: "v mod 4294967296 = a * 16777216 + b * 65536 + c * 256 + d"
    unfolding a_def b_def c_def d_def by (rule bytes32_mod)
  have e2: "nat (a * 16777216 + b * 65536 + c * 256 + d)
      = nat a * 16777216 + nat b * 65536 + nat c * 256 + nat d"
    using nn by linarith
  show ?thesis
    apply (fold a_def b_def c_def d_def)
    apply (simp only: e1 e2)
    done
qed

lemma int32_roundtrip:
  assumes "- 2147483648 \<le> v" "v \<le> 2147483647"
  shows "(if nat (v mod 4294967296) < 2147483648 then int (nat (v mod 4294967296))
          else int (nat (v mod 4294967296)) - 4294967296) = v"
proof (cases "0 \<le> v")
  case True
  with assms have "v mod 4294967296 = v" by simp
  with True assms show ?thesis by simp
next
  case False
  with assms have "(v + 4294967296) mod 4294967296 = v + 4294967296"
    by (intro mod_pos_pos_trivial) simp_all
  then have "v mod 4294967296 = v + 4294967296"
    by simp
  with False assms show ?thesis by simp
qed


lemma uint16_at_update:
  assumes "off + 1 < length buf" "0 \<le> v" "v \<le> 65535"
  shows "uint16_at (buf[off := of_int (v div 256), off + 1 := of_int v]) off = nat v"
  using assms bytes16 [of v]
  by (simp add: uint16_at_def unat_byte_of_int)

lemma be32_update:
  assumes "off + 3 < length buf"
  shows "be32 (buf[off := of_int (v div 16777216), off + 1 := of_int (v div 65536),
                   off + 2 := of_int (v div 256), off + 3 := of_int v]) off = nat (v mod 4294967296)"
  using assms bytes32_nat [of v]
  by (simp add: be32_def unat_byte_of_int)

lemma int32_at_update:
  assumes "off + 3 < length buf" "- 2147483648 \<le> v" "v \<le> 2147483647"
  shows "int32_at (buf[off := of_int (v div 16777216), off + 1 := of_int (v div 65536),
                       off + 2 := of_int (v div 256), off + 3 := of_int v]) off = v"
  unfolding int32_at_def be32_update [OF assms(1)]
  using int32_roundtrip [OF assms(2,3)] .

lemma uint16_at_frame:
  "i \<noteq> off \<Longrightarrow> i \<noteq> off + 1 \<Longrightarrow> uint16_at (buf[i := b]) off = uint16_at buf off"
  by (simp add: uint16_at_def)

lemma be32_frame:
  "i \<noteq> off \<Longrightarrow> i \<noteq> off + 1 \<Longrightarrow> i \<noteq> off + 2 \<Longrightarrow> i \<noteq> off + 3 \<Longrightarrow>
   be32 (buf[i := b]) off = be32 buf off"
  by (simp add: be32_def)

lemma int32_at_frame:
  "i \<noteq> off \<Longrightarrow> i \<noteq> off + 1 \<Longrightarrow> i \<noteq> off + 2 \<Longrightarrow> i \<noteq> off + 3 \<Longrightarrow>
   int32_at (buf[i := b]) off = int32_at buf off"
  by (simp add: int32_at_def be32_frame)

lemma sendTouch_Inr:
  assumes "sendTouch scale c action xPercent yPercent = Inr (c', [msg])"
  shows "c' = c \<and> socket c \<and> width (deviceInfo c) \<noteq> 0 \<and> 0 \<le> action \<and> action \<le> 255 \<and>
    (\<exists>v. scale xPercent (width (deviceInfo c)) = Finite v \<and> - 2147483648 \<le> v \<and> v \<le> 2147483647
       \<or> scale xPercent (width (deviceInfo c)) = NaN) \<and>
    (\<exists>v. scale yPercent (height (deviceInfo c)) = Finite v \<and> - 2147483648 \<le> v \<and> v \<le> 2147483647
       \<or> scale yPercent (height (deviceInfo c)) = NaN) \<and>
    int (width (deviceInfo c)) \<le> 65535 \<and> int (height (deviceInfo c)) \<le> 65535 \<and>
    msg = (let x = int32_written (scale xPercent (width (deviceInfo c)));
               y = int32_written (scale yPercent (height (deviceInfo c)));
               w = int (width (deviceInfo c)); h = int (height (deviceInfo c));
               pr = (if action = 1 then 0 else 65535 :: int) in
      (replicate 32 0)[0 := of_int 2, 1 := of_int action,
        10 := of_int (x div 16777216), 11 := of_int (x div 65536), 12 := of_int (x div 256), 13 := of_int x,
        14 := of_int (y div 16777216), 15 := of_int (y div 65536), 16 := of_int (y div 256), 17 := of_int y,
        18 := of_int (w div 256), 19 := of_int w,
        20 := of_int (h div 256), 21 := of_int h,
        22 := of_int (pr div 256), 23 := of_int pr,
        24 := of_int (1 div 16777216), 25 := of_int (1 div 65536), 26 := of_int (1 div 256), 27 := of_int 1,
        28 := of_int (0 div 16777216), 29 := of_int (0 div 65536), 30 := of_int (0 div 256), 31 := of_int 0])"
  using assms
  unfolding sendTouch_def Let_def writeUInt8_def writeUInt16BE_def writeUInt32BE_def writeInt32BE_def
  by (simp split: if_splits sum.splits number.splits)

text \<open>
  Claim C3, as the code has it. Whenever \<open>sendTouch\<close> hands a message to the socket,
  the message has 32 bytes: byte 0 is 2, byte 1 the action code, bytes 2 to 9 are zero,
  bytes 10 to 13 hold x and bytes 14 to 17 hold y as big-endian int32, bytes 18 and 19
  hold the device width, bytes 20 and 21 the device height, bytes 22 and 23 hold 0 when
  the action is 1 and 65535 otherwise, bytes 24 to 27 hold 1 and bytes 28 to 31 hold 0.
  Here x is what the runtime's \<open>Math.round\<close> returns for the first fraction times the
  device width, and y what it returns for the second fraction times the device height,
  \<open>NaN\<close> being stored as 0; neither of them is an infinity, since then no message is
  written. The client is unchanged.
\<close>

theorem touch_layout:
  assumes "sendTouch scale c action xPercent yPercent = Inr (c', [msg])"
  shows "length msg = 32 \<and> msg ! 0 = 2 \<and> uint (msg ! 1) = action \<and>
         (\<forall>i \<in> {2..<10}. msg ! i = 0) \<and>
         int32_at msg 10 = int32_written (scale xPercent (width (deviceInfo c))) \<and>
         int32_at msg 14 = int32_written (scale yPercent (height (deviceInfo c))) \<and>
         scale xPercent (width (deviceInfo c)) \<noteq> PlusInfinity \<and>
         scale xPercent (width (deviceInfo c)) \<noteq> MinusInfinity \<and>
         scale yPercent (height (deviceInfo c)) \<noteq> PlusInfinity \<and>
         scale yPercent (height (deviceInfo c)) \<noteq> MinusInfinity \<and>
         uint16_at msg 18 = width (deviceInfo c) \<and>
         uint16_at msg 20 = height (deviceInfo c) \<and>
         uint16_at msg 22 = (if action = 1 then 0 else 65535) \<and>
         be32 msg 24 = 1 \<and> int32_at msg 28 = 0 \<and> c' = c"
proof -
  define x where "x = int32_written (scale xPercent (width (deviceInfo c)))"
  define y where "y = int32_written (scale yPercent (height (deviceInfo c)))"
  define w where "w = int (width (deviceInfo c))"
  define h where "h = int (height (deviceInfo c))"
  define pr :: int where "pr = (if action = 1 then 0 else 65535)"
  from sendTouch_Inr [OF assms]
  have c: "c' = c" and act: "0 \<le> action" "action \<le> 255"
    and xs: "\<exists>v. scale xPercent (width (deviceInfo c)) = Finite v \<and> - 2147483648 \<le> v \<and> v \<le> 2147483647
       \<or> scale xPercent (width (deviceInfo c)) = NaN"
    and ys: "\<exists>v. scale yPercent (height (deviceInfo c)) = Finite v \<and> - 2147483648 \<le> v \<and> v \<le> 2147483647
       \<or> scale yPercent (height (deviceInfo c)) = NaN"
    and wr: "0 \<le> w" "w \<le> 65535" and hr: "0 \<le> h" "h \<le> 65535"
    and msg: "msg = (replicate 32 0)[0 := of_int 2, 1 := of_int action,
        10 := of_int (x div 16777216), 11 := of_int (x div 65536), 12 := of_int (x div 256), 13 := of_int x,
        14 := of_int (y div 16777216), 15 := of_int (y div 65536), 16 := of_int (y div 256), 17 := of_int y,
        18 := of_int (w div 256), 19 := of_int w,
        20 := of_int (h div 256), 21 := of_int h,
        22 := of_int (pr div 256), 23 := of_int pr,
        24 := of_int (1 div 16777216), 25 := of_int (1 div 65536), 26 := of_int (1 div 256), 27 := of_int 1,
        28 := of_int (0 div 16777216), 29 := of_int (0 div 65536), 30 := of_int (0 div 256), 31 := of_int 0]"
    unfolding x_def y_def w_def h_def pr_def Let_def by simp_all
  have xr: "- 2147483648 \<le> x" "x \<le> 2147483647"
    using xs by (auto simp: x_def)
  have yr: "- 2147483648 \<le> y" "y \<le> 2147483647"
    using ys by (auto simp: y_def)
  have inf: "scale xPercent (width (deviceInfo c)) \<noteq> PlusInfinity"
    "scale xPercent (width (deviceInfo c)) \<noteq> MinusInfinity"
    "scale yPercent (height (deviceInfo c)) \<noteq> PlusInfinity"
    "scale yPercent (height (deviceInfo c)) \<noteq> MinusInfinity"
    using xs ys by auto
  have prr: "0 \<le> pr" "pr \<le> 65535"
    by (simp_all add: pr_def)
  have 1: "length msg = 32" by (simp add: msg)
  have 2: "msg ! 0 = 2" by (simp add: msg)
  have 3: "uint (msg ! 1) = action"
    using act by (simp add: msg uint_word_of_int_eq take_bit_eq_mod)
  have 4: "\<forall>i \<in> {2..<10}. msg ! i = 0"
    by (simp add: msg)
  note iu = int32_at_update [where off = 10, simplified] int32_at_update [where off = 14, simplified]
    int32_at_update [where off = 28, simplified]
  note ifr = int32_at_frame [where off = 10, simplified] int32_at_frame [where off = 14, simplified]
    int32_at_frame [where off = 28, simplified]
  note uu = uint16_at_update [where off = 18, simplified] uint16_at_update [where off = 20, simplified]
    uint16_at_update [where off = 22, simplified]
  note ufr = uint16_at_frame [where off = 18, simplified] uint16_at_frame [where off = 20, simplified]
    uint16_at_frame [where off = 22, simplified]
  have 5: "int32_at msg 10 = x"
    using xr by (simp add: msg iu ifr)
  have 6: "int32_at msg 14 = y"
    using yr by (simp add: msg iu ifr)
  have 7: "uint16_at msg 18 = nat w"
    using wr by (simp add: msg uu ufr)
  have 8: "uint16_at msg 20 = nat h"
    using hr by (simp add: msg uu ufr)
  have 9: "uint16_at msg 22 = nat pr"
    using prr by (simp add: msg uu ufr)
  have 10: "be32 msg 24 = 1"
    by (simp add: msg be32_def)
  have 11: "int32_at msg 28 = 0"
    by (simp add: msg int32_at_def be32_def)
  show ?thesis
    using 1 2 3 4 5 6 7 8 9 10 11 c inf
    by (simp add: x_def y_def w_def h_def pr_def)
qed

lemma replicate_32_zero:
  "replicate 32 (0 :: byte) =
     [0, 0, 0, 0, 0, 0, 0, 0, 0, 0, 0, 0, 0, 0, 0, 0, 0, 0, 0, 0, 0, 0, 0, 0, 0, 0, 0, 0, 0, 0, 0, 0]"
  by (simp add: eval_nat_numeral)

lemma list_update_Cons_numeral: "(x # xs)[numeral v := y] = x # xs[numeral v - 1 := y]"
  by (simp add: numeral_eq_Suc)

text \<open>
  A touch down in the middle of a 1080 by 2400 screen, and a touch up whose fractions
  are not numbers, so that both products are \<open>NaN\<close>.
\<close>

lemma touch_example:
  "sendTouch round_times touch_client 0 Half Half = Inr (touch_client, [touch_down_msg])"
  by (simp add: sendTouch_def touch_client_def touch_down_msg_def Let_def
      writeUInt8_def writeUInt16BE_def writeUInt32BE_def writeInt32BE_def
      replicate_32_zero list_update_Cons_numeral)

lemma touch_nan_example:
  "sendTouch (\<lambda>p d. NaN) touch_client 1 p q =
     Inr (touch_client,
       [[2, 1, 0, 0, 0, 0, 0, 0, 0, 0, 0, 0, 0, 0, 0, 0, 0, 0,
         4, 56, 9, 96, 0, 0, 0, 0, 0, 1, 0, 0, 0, 0]])"
  by (simp add: sendTouch_def touch_client_def Let_def
      writeUInt8_def writeUInt16BE_def writeUInt32BE_def writeInt32BE_def
      replicate_32_zero list_update_Cons_numeral)

text \<open>
  Claim C3 as stated does not hold: it puts the pressure at bytes 18 and 19, the
  width at 20 and 21 and the height at 22 and 23. A touch down in the middle of a
  1080 by 2400 screen has 1080 at byte 18, 2400 at byte 20 and 65535 at byte 22.
\<close>

theorem touch_layout_counterexample:
  "sendTouch round_times touch_client 0 Half Half = Inr (touch_client, [touch_down_msg]) \<and>
   uint16_at touch_down_msg 18 = 1080 \<and> uint16_at touch_down_msg 20 = 2400 \<and>
   uint16_at touch_down_msg 22 = 65535 \<and>
   uint16_at touch_down_msg 18 \<noteq> 65535 \<and>
   uint16_at touch_down_msg 20 \<noteq> width (deviceInfo touch_client) \<and>
   uint16_at touch_down_msg 22 \<noteq> height (deviceInfo touch_client)"
  by (simp add: touch_example) (simp add: touch_down_msg_def touch_client_def uint16_at_def)

text \<open>
  The same touch down: x is 540 and y is 1200.
\<close>

theorem touch_layout_witness:
  "length touch_down_msg = 32 \<and> touch_down_msg ! 0 = 2 \<and> uint (touch_down_msg ! 1) = 0 \<and>
   int32_at touch_down_msg 10 = 540 \<and> int32_at touch_down_msg 14 = 1200 \<and>
   uint16_at touch_down_msg 18 = 1080 \<and> uint16_at touch_down_msg 20 = 2400 \<and>
   uint16_at touch_down_msg 22 = 65535 \<and> be32 touch_down_msg 24 = 1 \<and>
   int32_at touch_down_msg 28 = 0"
  using touch_layout [OF touch_example]
  by (simp add: touch_client_def)

text \<open>
  Claim C10. Without a socket, or while the device width is still 0, \<open>sendTouch\<close>
  returns normally, leaves the client as it is and writes nothing, whatever the action
  and the fractions are and whatever their products round to.
\<close>

theorem touch_before_ready:
  "\<not> socket c \<or> width (deviceInfo c) = 0 \<Longrightarrow>
   sendTouch scale c action xPercent yPercent = Inr (c, [])"
  by (simp add: sendTouch_def)

text \<open>
  A new client has no socket; a connected one has width 0 until the header has
  been read. The action 300 would not fit its byte.
\<close>

theorem touch_before_ready_witness:
  "sendTouch round_times (newClient ''A'' 27183) 0 Half Half = Inr (newClient ''A'' 27183, []) \<and>
   sendTouch round_times ((newClient ''A'' 27183)\<lparr> socket := True \<rparr>) 300 Half Half =
     Inr ((newClient ''A'' 27183)\<lparr> socket := True \<rparr>, [])"
  using touch_before_ready [of "newClient ''A'' 27183" round_times 0 Half Half]
    touch_before_ready [of "(newClient ''A'' 27183)\<lparr> socket := True \<rparr>" round_times 300 Half Half]
  by (simp add: newClient_def)

declare allocPort_loop.simps [simp del]

lemma allocPort_loop_Inr:
  "allocPort_loop p used = Inr (q, used') \<Longrightarrow>
   p \<le> q \<and> q < 28000 \<and> q \<notin> used \<and> (\<forall>r. p \<le> r \<and> r < q \<longrightarrow> r \<in> used) \<and>
   used' = insert q used"
proof (induction p used rule: allocPort_loop.induct)
  case (1 p used)
  show ?case
  proof (cases "p < 28000 \<and> p \<in> used")
    case True
    with "1.prems" have "allocPort_loop (p + 1) used = Inr (q, used')"
      by (subst (asm) allocPort_loop.simps) simp
    from "1.IH" [OF _ _ this] True
    have *: "p + 1 \<le> q \<and> q < 28000 \<and> q \<notin> used \<and>
        (\<forall>r. p + 1 \<le> r \<and> r < q \<longrightarrow> r \<in> used) \<and> used' = insert q used"
      by simp
    have "r \<in> used" if "p \<le> r" "r < q" for r
    proof (cases "r = p")
      case True
      with \<open>p < 28000 \<and> p \<in> used\<close> show ?thesis by simp
    next
      case False
      with that * show ?thesis by simp
    qed
    with * show ?thesis by simp
  next
    case False
    with "1.prems" show ?thesis
      by (subst (asm) allocPort_loop.simps) (auto split: if_splits)
  qed
qed

lemma allocPort_loop_Inl:
  "allocPort_loop p used = Inl e \<Longrightarrow>
   e = NoAvailablePorts \<and> (\<forall>r. p \<le> r \<and> r < 28000 \<longrightarrow> r \<in> used)"
proof (induction p used rule: allocPort_loop.induct)
  case (1 p used)
  show ?case
  proof (cases "p < 28000 \<and> p \<in> used")
    case True
    with "1.prems" have "allocPort_loop (p + 1) used = Inl e"
      by (subst (asm) allocPort_loop.simps) simp
    from "1.IH" [OF _ _ this] True
    have *: "e = NoAvailablePorts \<and> (\<forall>r. p + 1 \<le> r \<and> r < 28000 \<longrightarrow> r \<in> used)"
      by simp
    have "r \<in> used" if "p \<le> r" "r < 28000" for r
    proof (cases "r = p")
      case True
      with \<open>p < 28000 \<and> p \<in> used\<close> show ?thesis by simp
    next
      case False
      with that * show ?thesis by simp
    qed
    with * show ?thesis by simp
  next
    case False
    with "1.prems" show ?thesis
      by (subst (asm) allocPort_loop.simps) (auto split: if_splits)
  qed
qed

text \<open>
  Claim C7. For every set of leased ports, \<open>allocPort\<close> returns a port \<open>q\<close> and a new
  set exactly when \<open>q\<close> is the lowest port from 27183 up to 27999 that is not leased and
  the new set is the old one with \<open>q\<close> added; it fails exactly when every port from
  27183 up to 27999 is leased, and then with the error \<open>No available ports\<close>.
\<close>

theorem allocPort_lowest_free:
  "(allocPort used = Inr (q, used') \<longleftrightarrow>
      27183 \<le> q \<and> q < 28000 \<and> q \<notin> used \<and>
      (\<forall>r. 27183 \<le> r \<and> r < q \<longrightarrow> r \<in> used) \<and> used' = insert q used) \<and>
   (allocPort used = Inl e \<longleftrightarrow>
      e = NoAvailablePorts \<and> (\<forall>r. 27183 \<le> r \<and> r < 28000 \<longrightarrow> r \<in> used))"
proof (rule conjI; rule iffI)
  assume "allocPort used = Inr (q, used')"
  then show "27183 \<le> q \<and> q < 28000 \<and> q \<notin> used \<and>
      (\<forall>r. 27183 \<le> r \<and> r < q \<longrightarrow> r \<in> used) \<and> used' = insert q used"
    unfolding allocPort_def by (rule allocPort_loop_Inr)
next
  assume "allocPort used = Inl e"
  then show "e = NoAvailablePorts \<and> (\<forall>r. 27183 \<le> r \<and> r < 28000 \<longrightarrow> r \<in> used)"
    unfolding allocPort_def by (rule allocPort_loop_Inl)
next
  assume a: "27183 \<le> q \<and> q < 28000 \<and> q \<notin> used \<and>
      (\<forall>r. 27183 \<le> r \<and> r < q \<longrightarrow> r \<in> used) \<and> used' = insert q used"
  show "allocPort used = Inr (q, used')"
  proof (cases "allocPort used")
    case (Inl e)
    then have "\<forall>r. 27183 \<le> r \<and> r < 28000 \<longrightarrow> r \<in> used"
      unfolding allocPort_def by (auto dest: allocPort_loop_Inl)
    with a show ?thesis by blast
  next
    case (Inr r)
    obtain q2 u2 where r: "r = (q2, u2)" by (cases r)
    from Inr r have b: "27183 \<le> q2 \<and> q2 < 28000 \<and> q2 \<notin> used \<and>
      (\<forall>r. 27183 \<le> r \<and> r < q2 \<longrightarrow> r \<in> used) \<and> u2 = insert q2 used"
      unfolding allocPort_def by (auto dest: allocPort_loop_Inr)
    have "q2 = q"
    proof (rule ccontr)
      assume "q2 \<noteq> q"
      then consider "q2 < q" | "q < q2" by linarith
      then show False
        using a b by cases blast+
    qed
    with Inr r a b show ?thesis by simp
  qed
next
  assume a: "e = NoAvailablePorts \<and> (\<forall>r. 27183 \<le> r \<and> r < 28000 \<longrightarrow> r \<in> used)"
  show "allocPort used = Inl e"
  proof (cases "allocPort used")
    case (Inl e')
    then have "e' = NoAvailablePorts"
      unfolding allocPort_def by (auto dest: allocPort_loop_Inl)
    with Inl a show ?thesis by simp
  next
    case (Inr r)
    obtain q2 u2 where r: "r = (q2, u2)" by (cases r)
    from Inr r have "27183 \<le> q2 \<and> q2 < 28000 \<and> q2 \<notin> used"
      unfolding allocPort_def by (auto dest: allocPort_loop_Inr)
    with a show ?thesis by blast
  qed
qed

text \<open>With the first two ports leased the third is returned; with the whole range
  leased the call fails.\<close>

theorem allocPort_lowest_free_witness:
  "allocPort {27183, 27184} = Inr (27185, {27185, 27183, 27184}) \<and>
   allocPort {27183..<28000} = Inl NoAvailablePorts"
proof
  have "\<forall>r::nat. 27183 \<le> r \<and> r < 27185 \<longrightarrow> r \<in> {27183, 27184}"
    by auto
  then show "allocPort {27183, 27184} = Inr (27185, {27185, 27183, 27184})"
    using allocPort_lowest_free [of "{27183, 27184}" 27185 "{27185, 27183, 27184}", THEN conjunct1]
    by simp
  show "allocPort {27183..<28000} = Inl NoAvailablePorts"
    using allocPort_lowest_free [of "{27183..<28000}" _ _ NoAvailablePorts, THEN conjunct2]
    by simp
qed

lemma keys_delete: "fst ` set (AList.delete k al) = fst ` set al - {k}"
  by (induction al) auto

lemma keys_update: "fst ` set (AList.update k v al) = insert k (fst ` set al)"
  by (induction al) auto

lemma removeLoop_keys:
  "removeLoop kill cur es g tr = (g', tr') \<Longrightarrow>
   fst ` set (activeClients g') = fst ` set (activeClients g) - (fst ` set es - cur)"
proof (induction es arbitrary: g tr)
  case Nil
  then show ?case by simp
next
  case (Cons e es)
  obtain s i where e: "e = (s, i)" by (cases e)
  show ?case
  proof (cases "s \<in> cur")
    case True
    with Cons.prems e have "removeLoop kill cur es g tr = (g', tr')" by simp
    from Cons.IH [OF this] True e show ?thesis by auto
  next
    case False
    with Cons.prems e have "removeLoop kill cur es
          (g\<lparr> usedPorts := freePort (info_port i) (usedPorts g),
               activeClients := AList.delete s (activeClients g),
               deviceBuffers := AList.delete s (deviceBuffers g) \<rparr>)
          (tr @ [ClientStop s (snd (stop (kill s) (client i))), FreePort (info_port i)]) = (g', tr')"
      by simp
    from Cons.IH [OF this] False e show ?thesis by (auto simp: keys_delete)
  qed
qed

lemma removeLoop_noop:
  "fst ` set es \<subseteq> cur \<Longrightarrow> removeLoop kill cur es g tr = (g, tr)"
  by (induction es arbitrary: g tr) auto

lemma addLoop_keys:
  "addLoop ds g tr = (g', tr') \<Longrightarrow>
   fst ` set (activeClients g) \<subseteq> fst ` set (activeClients g') \<and>
   fst ` set (activeClients g') \<subseteq> fst ` set (activeClients g) \<union> dev_serial ` set ds"
proof (induction ds arbitrary: g tr)
  case Nil
  then show ?case by simp
next
  case (Cons d ds)
  show ?case
  proof (cases "has (activeClients g) (dev_serial d)")
    case True
    with Cons.prems have "addLoop ds g tr = (g', tr')" by simp
    from Cons.IH [OF this] show ?thesis by auto
  next
    case False
    show ?thesis
    proof (cases "allocPort (usedPorts g)")
      case (Inl e)
      with False Cons.prems show ?thesis by auto
    next
      case (Inr r)
      obtain p used where r: "r = (p, used)" by (cases r)
      let ?g = "g\<lparr> usedPorts := used,
                    activeClients :=
                      AList.update (dev_serial d)
                        \<lparr> client = newClient (dev_serial d) p, info_port = p \<rparr> (activeClients g),
                    deviceBuffers :=
                      AList.update (dev_serial d) \<lparr> sps = None, pps = None, idr = None \<rparr>
                        (deviceBuffers g) \<rparr>"
      from False Inr r Cons.prems
      have "addLoop ds ?g (tr @ [AllocPort p, NewClient (dev_serial d) p, ClientStart (dev_serial d)])
          = (g', tr')"
        by simp
      from Cons.IH [OF this] show ?thesis by (auto simp: keys_update)
    qed
  qed
qed

lemma addLoop_post:
  "addLoop ds g tr = (g', tr') \<Longrightarrow>
   (\<forall>d \<in> set ds. has (activeClients g') (dev_serial d)) \<or>
   (\<exists>e. allocPort (usedPorts g') = Inl e)"
proof (induction ds arbitrary: g tr)
  case Nil
  then show ?case by simp
next
  case (Cons d ds)
  show ?case
  proof (cases "has (activeClients g) (dev_serial d)")
    case True
    with Cons.prems have r: "addLoop ds g tr = (g', tr')" by simp
    from addLoop_keys [OF r] True have "has (activeClients g') (dev_serial d)"
      by (auto simp: has_def)
    with Cons.IH [OF r] show ?thesis by auto
  next
    case False
    show ?thesis
    proof (cases "allocPort (usedPorts g)")
      case (Inl e)
      with False Cons.prems show ?thesis by auto
    next
      case (Inr r)
      obtain p used where r: "r = (p, used)" by (cases r)
      let ?g = "g\<lparr> usedPorts := used,
                    activeClients :=
                      AList.update (dev_serial d)
                        \<lparr> client = newClient (dev_serial d) p, info_port = p \<rparr> (activeClients g),
                    deviceBuffers :=
                      AList.update (dev_serial d) \<lparr> sps = None, pps = None, idr = None \<rparr>
                        (deviceBuffers g) \<rparr>"
      from False Inr r Cons.prems
      have a: "addLoop ds ?g (tr @ [AllocPort p, NewClient (dev_serial d) p, ClientStart (dev_serial d)])
          = (g', tr')"
        by simp
      from addLoop_keys [OF a] have "has (activeClients g') (dev_serial d)"
        by (auto simp: has_def keys_update)
      with Cons.IH [OF a] show ?thesis by auto
    qed
  qed
qed

lemma addLoop_noop:
  "(\<forall>d \<in> set ds. has (activeClients g) (dev_serial d)) \<or> (\<exists>e. allocPort (usedPorts g) = Inl e) \<Longrightarrow>
   \<exists>tr'. addLoop ds g tr = (g, tr @ tr') \<and> (\<forall>a \<in> set tr'. \<exists>e. a = ScannerLoopError e)"
proof (induction ds arbitrary: tr)
  case Nil
  then show ?case by simp
next
  case (Cons d ds)
  show ?case
  proof (cases "has (activeClients g) (dev_serial d)")
    case True
    from Cons.prems have "(\<forall>d \<in> set ds. has (activeClients g) (dev_serial d)) \<or>
        (\<exists>e. allocPort (usedPorts g) = Inl e)"
      by auto
    from Cons.IH [OF this, of tr] True show ?thesis by simp
  next
    case False
    with Cons.prems obtain e where "allocPort (usedPorts g) = Inl e" by auto
    with False have "addLoop (d # ds) g tr = (g, tr @ [ScannerLoopError e])" by simp
    then show ?thesis by auto
  qed
qed

text \<open>
  Claim C8. Take any global state, any answer of the device query and any outcomes of
  the kills, and run the scanner. A second run right after it, against a device list with
  the same serials (in any order, with any kill outcomes), returns the state the first
  run left, unchanged: no client is stopped or created, no port freed or allocated. The
  only thing the second run can do is log the scanner loop error again, when the first
  run has used up the ports.
\<close>

theorem scanner_idempotent:
  assumes "dev_serial ` set devices' = dev_serial ` set devices"
  shows "\<exists>tr. deviceScanner kill' devices' (fst (deviceScanner kill devices g)) =
                (fst (deviceScanner kill devices g), tr) \<and>
              (\<forall>a \<in> set tr. \<exists>e. a = ScannerLoopError e)"
proof (cases "scanning g")
  case True
  then show ?thesis by (simp add: deviceScanner_def)
next
  case False
  let ?cur = "dev_serial ` set devices"
  obtain g1 tr1 where r1: "removeLoop kill ?cur (activeClients g) (g\<lparr> scanning := True \<rparr>) [] = (g1, tr1)"
    by (cases "removeLoop kill ?cur (activeClients g) (g\<lparr> scanning := True \<rparr>) []")
  obtain g2 tr2 where r2: "addLoop devices g1 tr1 = (g2, tr2)"
    by (cases "addLoop devices g1 tr1")
  have first: "deviceScanner kill devices g = (g2\<lparr> scanning := False \<rparr>, tr2)"
    using False r1 r2 by (simp add: deviceScanner_def)
  have k1: "fst ` set (activeClients g1) \<subseteq> ?cur"
    using removeLoop_keys [OF r1] by auto
  have k2: "fst ` set (activeClients g2) \<subseteq> ?cur"
    using addLoop_keys [OF r2] k1 by blast
  let ?g = "g2\<lparr> scanning := True \<rparr>"
  have rm: "removeLoop kill' (dev_serial ` set devices') (activeClients ?g) ?g [] = (?g, [])"
    using k2 assms by (intro removeLoop_noop) simp
  have "(\<forall>d \<in> set devices. has (activeClients g2) (dev_serial d)) \<or>
        (\<exists>e. allocPort (usedPorts g2) = Inl e)"
    by (rule addLoop_post [OF r2])
  then have "(\<forall>s \<in> dev_serial ` set devices. has (activeClients g2) s) \<or>
        (\<exists>e. allocPort (usedPorts g2) = Inl e)"
    by simp
  then have "(\<forall>s \<in> dev_serial ` set devices'. has (activeClients g2) s) \<or>
        (\<exists>e. allocPort (usedPorts g2) = Inl e)"
    unfolding assms .
  then have "(\<forall>d \<in> set devices'. has (activeClients ?g) (dev_serial d)) \<or>
        (\<exists>e. allocPort (usedPorts ?g) = Inl e)"
    by simp
  from addLoop_noop [OF this, of "[]"]
  obtain tr' where ad: "addLoop devices' ?g [] = (?g, tr')"
    and tr': "\<forall>a \<in> set tr'. \<exists>e. a = ScannerLoopError e"
    by auto
  have "deviceScanner kill' devices' (g2\<lparr> scanning := False \<rparr>) = (g2\<lparr> scanning := False \<rparr>, tr')"
    using rm ad by (simp add: deviceScanner_def)
  with first tr' show ?thesis by auto
qed


lemma allocPort_empty: "allocPort {} = Inr (27183, {27183})"
  by (simp add: allocPort_def allocPort_loop.simps)

lemma scan_first:
  "deviceScanner (\<lambda>s. Inr ()) [\<lparr> dev_serial = ''A'', model = ''Pixel'' \<rparr>] initial_global =
     (one_device, [AllocPort 27183, NewClient ''A'' 27183, ClientStart ''A''])"
  by (simp add: deviceScanner_def initial_global_def one_device_def allocPort_empty has_def)

text \<open>From the initial state with one device attached: the first run allocates port
  27183 and creates the client, the second does nothing.\<close>

theorem scanner_idempotent_witness:
  "deviceScanner (\<lambda>s. Inr ()) [\<lparr> dev_serial = ''A'', model = ''Pixel'' \<rparr>] initial_global =
     (one_device, [AllocPort 27183, NewClient ''A'' 27183, ClientStart ''A'']) \<and>
   deviceScanner (\<lambda>s. Inr ()) [\<lparr> dev_serial = ''A'', model = ''Pixel'' \<rparr>] one_device =
     (one_device, [])"
proof -
  let ?d = "[\<lparr> dev_serial = ''A'', model = ''Pixel'' \<rparr>]"
  from scanner_idempotent [of ?d ?d "\<lambda>s. Inr ()" "\<lambda>s. Inr ()" initial_global]
  obtain tr where tr: "deviceScanner (\<lambda>s. Inr ()) ?d one_device = (one_device, tr)"
    and only: "\<forall>a \<in> set tr. \<exists>e. a = ScannerLoopError e"
    unfolding scan_first by auto
  have "snd (deviceScanner (\<lambda>s. Inr ()) ?d one_device) = []"
    by (simp add: deviceScanner_def one_device_def has_def)
  with tr have "tr = []" by simp
  with tr scan_first show ?thesis by simp
qed


lemma wssClients_cacheNal: "wssClients (cacheNal s buf g) = wssClients g"
  by (simp add: cacheNal_def Let_def split: option.splits)

lemma after_viewer:
  assumes "n < length (wssClients g)" "ws_serial (wssClients g ! n) = Some s"
    "readyState_OPEN (wssClients g ! n)"
  shows "length (wssClients (after g ev)) = length (wssClients g) \<and>
         ws_serial (wssClients (after g ev) ! n) = Some s \<and>
         readyState_OPEN (wssClients (after g ev) ! n) \<and>
         sent (wssClients (after g ev) ! n) = sent (wssClients g ! n) @ frames_for n s [ev]"
proof (cases ev)
  case (VideoPacket s' data)
  with assms show ?thesis
    by (simp add: on_video_data_def broadcast_def wssClients_cacheNal)
next
  case (Report m frame)
  with assms show ?thesis
    by (simp add: nth_list_update)
qed

lemma frames_for_Cons: "frames_for n s (ev # evs) = frames_for n s [ev] @ frames_for n s evs"
  by (cases ev) simp_all

lemma foldl_after_viewer:
  assumes "n < length (wssClients g)" "ws_serial (wssClients g ! n) = Some s"
    "readyState_OPEN (wssClients g ! n)"
  shows "sent (wssClients (foldl after g evs) ! n) = sent (wssClients g ! n) @ frames_for n s evs"
  using assms
proof (induction evs arbitrary: g)
  case Nil
  then show ?case by simp
next
  case (Cons ev evs)
  from after_viewer [OF Cons.prems, of ev]
  have a: "n < length (wssClients (after g ev))" "ws_serial (wssClients (after g ev) ! n) = Some s"
    "readyState_OPEN (wssClients (after g ev) ! n)"
    and b: "sent (wssClients (after g ev) ! n) = sent (wssClients g ! n) @ frames_for n s [ev]"
    using Cons.prems(1) by simp_all
  from Cons.IH [OF a] b show ?case
    by (simp add: frames_for_Cons [of n s ev evs] del: frames_for.simps)
qed

text \<open>
  Claim C9. When the cache of a serial holds an SPS, a PPS and an IDR packet and a viewer
  connects for that serial, the frames sent to that viewer are the cached SPS, PPS and
  IDR, in this order, followed by what later events bring: the video packets of its
  serial and the reports addressed to it, in the order of the events. Nothing comes
  before the three cached packets or between them.
\<close>

theorem keyframe_replay:
  assumes "map_of (deviceBuffers g) s = Some \<lparr> sps = Some a, pps = Some b, idr = Some k \<rparr>"
    and "s \<noteq> []"
  shows "sent (wssClients (foldl after (fst (ws_connection (Some s) g)) evs) ! length (wssClients g))
           = [a, b, k] @ frames_for (length (wssClients g)) s evs"
proof -
  let ?n = "length (wssClients g)"
  let ?w = "\<lparr> ws_serial = Some s, readyState_OPEN = True, sent = [a, b, k] \<rparr>"
  have c: "fst (ws_connection (Some s) g) = g\<lparr> wssClients := wssClients g @ [?w] \<rparr>"
    using assms by (simp add: ws_connection_def)
  show ?thesis
    unfolding c
    using foldl_after_viewer [of ?n "g\<lparr> wssClients := wssClients g @ [?w] \<rparr>" s evs]
    by simp
qed

lemma cached_device_eq:
  "cached_device = one_device
     \<lparr> deviceBuffers := [(''A'', \<lparr> sps = Some sps_packet, pps = Some pps_packet,
                                   idr = Some idr_packet \<rparr>)] \<rparr>"
  by (simp add: cached_device_def one_device_def on_video_data_def broadcast_def cacheNal_def
      sps_packet_def pps_packet_def idr_packet_def)

text \<open>Three packets of NAL types 7, 8 and 5 fill the cache of device \<open>A\<close>; a viewer
  connects; a packet of type 1 follows.\<close>

theorem keyframe_replay_witness:
  "sent (wssClients (foldl after (fst (ws_connection (Some ''A'') cached_device))
       [VideoPacket ''A'' p_packet]) ! 0)
     = [sps_packet, pps_packet, idr_packet, p_packet]"
  using keyframe_replay [of cached_device "''A''" sps_packet pps_packet idr_packet
      "[VideoPacket ''A'' p_packet]"]
  by (simp add: cached_device_eq one_device_def)


lemma stop_eq:
  "stop kill c =
     (c\<lparr> socket := False, localServer := False, adbProcess := False \<rparr>,
      (if socket c then [SocketDestroy] else []) @ (if localServer c then [ServerClose] else [])
      @ (if adbProcess c then [ProcessKill] else []) @ [EmitStopped])"
  by (cases kill) (simp_all add: stop_def)

lemma stop_running_client:
  "stop kill running_client =
     (newClient ''A'' 27183, [SocketDestroy, ServerClose, ProcessKill, EmitStopped])"
  by (simp add: stop_eq running_client_def newClient_def)

text \<open>
  Claim C4 does not hold for a stop caused by the exit of the agent: the socket, the
  listener and the process are released, the port 27183 stays leased.
\<close>

theorem port_release_counterexample:
  "adbProcess_close (Inr ()) ''A'' running_device =
     (one_device, [ClientStop ''A'' [SocketDestroy, ServerClose, ProcessKill, EmitStopped]]) \<and>
   usedPorts one_device = {27183}"
  by (simp add: adbProcess_close_def running_device_def one_device_def stop_running_client)

lemma removeLoop_trace: "\<exists>tr'. snd (removeLoop kill cur es g tr) = tr @ tr'"
proof (induction es arbitrary: g tr)
  case Nil
  then show ?case by simp
next
  case (Cons e es)
  obtain s i where e: "e = (s, i)" by (cases e)
  show ?case
  proof (cases "s \<in> cur")
    case True
    with e Cons.IH [of g tr] show ?thesis by simp
  next
    case False
    let ?g = "g\<lparr> usedPorts := freePort (info_port i) (usedPorts g),
               activeClients := AList.delete s (activeClients g),
               deviceBuffers := AList.delete s (deviceBuffers g) \<rparr>"
    let ?t = "[ClientStop s (snd (stop (kill s) (client i))), FreePort (info_port i)]"
    from Cons.IH [of ?g "tr @ ?t"] obtain tr' where
      "snd (removeLoop kill cur es ?g (tr @ ?t)) = (tr @ ?t) @ tr'" by blast
    with e False have "snd (removeLoop kill cur (e # es) g tr) = tr @ (?t @ tr')" by simp
    then show ?thesis by blast
  qed
qed

lemma removeLoop_stops:
  "(s, i) \<in> set es \<Longrightarrow> s \<notin> cur \<Longrightarrow>
   \<exists>t1 t2. snd (removeLoop kill cur es g tr) =
     tr @ t1 @ [ClientStop s (snd (stop (kill s) (client i))), FreePort (info_port i)] @ t2"
proof (induction es arbitrary: g tr)
  case Nil
  then show ?case by simp
next
  case (Cons e es)
  obtain s' i' where e: "e = (s', i')" by (cases e)
  let ?g = "g\<lparr> usedPorts := freePort (info_port i') (usedPorts g),
             activeClients := AList.delete s' (activeClients g),
             deviceBuffers := AList.delete s' (deviceBuffers g) \<rparr>"
  let ?t = "[ClientStop s' (snd (stop (kill s') (client i'))), FreePort (info_port i')]"
  show ?case
  proof (cases "e = (s, i)")
    case True
    with e have [simp]: "s' = s" "i' = i" by simp_all
    from removeLoop_trace [of kill cur es ?g "tr @ ?t"] obtain tr' where
      "snd (removeLoop kill cur es ?g (tr @ ?t)) = (tr @ ?t) @ tr'" by blast
    with e Cons.prems(2) have "snd (removeLoop kill cur (e # es) g tr) = tr @ [] @ ?t @ tr'"
      by simp
    then show ?thesis by (metis \<open>s' = s\<close> \<open>i' = i\<close>)
  next
    case False
    with Cons.prems have in_es: "(s, i) \<in> set es" by simp
    show ?thesis
    proof (cases "s' \<in> cur")
      case True
      from Cons.IH [OF in_es Cons.prems(2), of g tr] e True show ?thesis by simp
    next
      case notin: False
      from Cons.IH [OF in_es Cons.prems(2), of ?g "tr @ ?t"] obtain t1 t2 where
        "snd (removeLoop kill cur es ?g (tr @ ?t)) =
           (tr @ ?t) @ t1 @ [ClientStop s (snd (stop (kill s) (client i))), FreePort (info_port i)] @ t2"
        by blast
      with e notin have "snd (removeLoop kill cur (e # es) g tr) =
           tr @ (?t @ t1) @ [ClientStop s (snd (stop (kill s) (client i))), FreePort (info_port i)] @ t2"
        by simp
      then show ?thesis by blast
    qed
  qed
qed

lemma addLoop_trace: "\<exists>tr'. snd (addLoop ds g tr) = tr @ tr'"
proof (induction ds arbitrary: g tr)
  case Nil
  then show ?case by simp
next
  case (Cons d ds)
  show ?case
  proof (cases "has (activeClients g) (dev_serial d)")
    case True
    with Cons.IH [of g tr] show ?thesis by simp
  next
    case False
    show ?thesis
    proof (cases "allocPort (usedPorts g)")
      case (Inl e)
      with False show ?thesis by simp
    next
      case (Inr r)
      obtain p used where r: "r = (p, used)" by (cases r)
      let ?g = "g\<lparr> usedPorts := used,
                    activeClients :=
                      AList.update (dev_serial d)
                        \<lparr> client = newClient (dev_serial d) p, info_port = p \<rparr> (activeClients g),
                    deviceBuffers :=
                      AList.update (dev_serial d) \<lparr> sps = None, pps = None, idr = None \<rparr>
                        (deviceBuffers g) \<rparr>"
      let ?t = "[AllocPort p, NewClient (dev_serial d) p, ClientStart (dev_serial d)]"
      from Cons.IH [of ?g "tr @ ?t"] obtain tr' where
        "snd (addLoop ds ?g (tr @ ?t)) = (tr @ ?t) @ tr'" by blast
      with False Inr r have "snd (addLoop (d # ds) g tr) = tr @ (?t @ tr')" by simp
      then show ?thesis by blast
    qed
  qed
qed

lemma removeLoop_buffer_keys:
  "removeLoop kill cur es g tr = (g', tr') \<Longrightarrow>
   fst ` set (deviceBuffers g') = fst ` set (deviceBuffers g) - (fst ` set es - cur)"
proof (induction es arbitrary: g tr)
  case Nil
  then show ?case by simp
next
  case (Cons e es)
  obtain s i where e: "e = (s, i)" by (cases e)
  show ?case
  proof (cases "s \<in> cur")
    case True
    with Cons.prems e have "removeLoop kill cur es g tr = (g', tr')" by simp
    from Cons.IH [OF this] True e show ?thesis by auto
  next
    case False
    with Cons.prems e have "removeLoop kill cur es
          (g\<lparr> usedPorts := freePort (info_port i) (usedPorts g),
               activeClients := AList.delete s (activeClients g),
               deviceBuffers := AList.delete s (deviceBuffers g) \<rparr>)
          (tr @ [ClientStop s (snd (stop (kill s) (client i))), FreePort (info_port i)]) = (g', tr')"
      by simp
    from Cons.IH [OF this] False e show ?thesis by (auto simp: keys_delete)
  qed
qed

lemma addLoop_buffer_keys:
  "addLoop ds g tr = (g', tr') \<Longrightarrow>
   fst ` set (deviceBuffers g') \<subseteq> fst ` set (deviceBuffers g) \<union> dev_serial ` set ds"
proof (induction ds arbitrary: g tr)
  case Nil
  then show ?case by simp
next
  case (Cons d ds)
  show ?case
  proof (cases "has (activeClients g) (dev_serial d)")
    case True
    with Cons.prems have "addLoop ds g tr = (g', tr')" by simp
    from Cons.IH [OF this] show ?thesis by auto
  next
    case False
    show ?thesis
    proof (cases "allocPort (usedPorts g)")
      case (Inl e)
      with False Cons.prems show ?thesis by auto
    next
      case (Inr r)
      obtain p used where r: "r = (p, used)" by (cases r)
      let ?g = "g\<lparr> usedPorts := used,
                    activeClients :=
                      AList.update (dev_serial d)
                        \<lparr> client = newClient (dev_serial d) p, info_port = p \<rparr> (activeClients g),
                    deviceBuffers :=
                      AList.update (dev_serial d) \<lparr> sps = None, pps = None, idr = None \<rparr>
                        (deviceBuffers g) \<rparr>"
      from False Inr r Cons.prems
      have "addLoop ds ?g (tr @ [AllocPort p, NewClient (dev_serial d) p, ClientStart (dev_serial d)])
          = (g', tr')"
        by simp
      from Cons.IH [OF this] show ?thesis by (auto simp: keys_update)
    qed
  qed
qed

text \<open>
  The ports through a scan: the removal loop takes the port of every entry it removes
  out of \<open>usedPorts\<close>, and the loop that adds devices puts in only the ports it
  allocates.
\<close>

lemma removeLoop_ports:
  "removeLoop kill cur es g tr = (g', tr') \<Longrightarrow>
   usedPorts g' = usedPorts g - {info_port i | s i. (s, i) \<in> set es \<and> s \<notin> cur}"
proof (induction es arbitrary: g tr)
  case Nil
  then show ?case by simp
next
  case (Cons e es)
  obtain s i where e: "e = (s, i)" by (cases e)
  show ?case
  proof (cases "s \<in> cur")
    case True
    with Cons.prems e have "removeLoop kill cur es g tr = (g', tr')" by simp
    from Cons.IH [OF this] True e show ?thesis by auto
  next
    case False
    with Cons.prems e have "removeLoop kill cur es
          (g\<lparr> usedPorts := freePort (info_port i) (usedPorts g),
               activeClients := AList.delete s (activeClients g),
               deviceBuffers := AList.delete s (deviceBuffers g) \<rparr>)
          (tr @ [ClientStop s (snd (stop (kill s) (client i))), FreePort (info_port i)]) = (g', tr')"
      by simp
    from Cons.IH [OF this] False e show ?thesis by (auto simp: freePort_def)
  qed
qed

lemma allocPort_Inr: "allocPort used = Inr (p, used') \<Longrightarrow> used' = insert p used"
  unfolding allocPort_def by (auto dest: allocPort_loop_Inr)

lemma addLoop_ports:
  "addLoop ds g tr = (g', tr') \<Longrightarrow>
   \<exists>t. tr' = tr @ t \<and> usedPorts g' \<subseteq> usedPorts g \<union> {p. AllocPort p \<in> set t}"
proof (induction ds arbitrary: g tr)
  case Nil
  then show ?case by simp
next
  case (Cons d ds)
  show ?case
  proof (cases "has (activeClients g) (dev_serial d)")
    case True
    with Cons.prems have "addLoop ds g tr = (g', tr')" by simp
    from Cons.IH [OF this] show ?thesis .
  next
    case False
    show ?thesis
    proof (cases "allocPort (usedPorts g)")
      case (Inl e)
      with False Cons.prems show ?thesis by auto
    next
      case (Inr r)
      obtain p used where r: "r = (p, used)" by (cases r)
      let ?g = "g\<lparr> usedPorts := used,
                    activeClients :=
                      AList.update (dev_serial d)
                        \<lparr> client = newClient (dev_serial d) p, info_port = p \<rparr> (activeClients g),
                    deviceBuffers :=
                      AList.update (dev_serial d) \<lparr> sps = None, pps = None, idr = None \<rparr>
                        (deviceBuffers g) \<rparr>"
      let ?t = "[AllocPort p, NewClient (dev_serial d) p, ClientStart (dev_serial d)]"
      from False Inr r Cons.prems have "addLoop ds ?g (tr @ ?t) = (g', tr')"
        by simp
      from Cons.IH [OF this] obtain t where
        t: "tr' = (tr @ ?t) @ t" "usedPorts g' \<subseteq> usedPorts ?g \<union> {p. AllocPort p \<in> set t}"
        by blast
      have "used = insert p (usedPorts g)"
        using Inr r by (auto dest: allocPort_Inr)
      with t have "tr' = tr @ (?t @ t) \<and>
          usedPorts g' \<subseteq> usedPorts g \<union> {q. AllocPort q \<in> set (?t @ t)}"
        by auto
      then show ?thesis by blast
    qed
  qed
qed

text \<open>
  Claim C4, as the code has it. \<open>stop\<close> destroys the socket if there is one, closes the
  listener if there is one, and tries to kill the agent process if there is one; whether
  the kill throws or not, the three handles are cleared and \<open>stopped\<close> is emitted.
  The port is freed by the scanner: when it finds a registered serial that is no longer
  attached, it stops the client and frees its port right after. The port is not in
  \<open>usedPorts\<close> when the removal loop has ended, and when the scan has ended it is in
  \<open>usedPorts\<close> only if the scan has allocated it again, after freeing it, for a device
  it has added. The serial has no entry in the registry or in the caches afterwards.
\<close>

theorem stop_releases:
  "stop kill c =
     (c\<lparr> socket := False, localServer := False, adbProcess := False \<rparr>,
      (if socket c then [SocketDestroy] else []) @ (if localServer c then [ServerClose] else [])
      @ (if adbProcess c then [ProcessKill] else []) @ [EmitStopped]) \<and>
   (\<not> scanning g \<and> (s, i) \<in> set (activeClients g) \<and> s \<notin> dev_serial ` set devices \<longrightarrow>
      info_port i \<notin> usedPorts (fst (removeLoop killf (set (map dev_serial devices))
                                        (activeClients g) (g\<lparr> scanning := True \<rparr>) [])) \<and>
      (\<exists>t1 t2. snd (deviceScanner killf devices g) =
          t1 @ [ClientStop s (snd (stop (killf s) (client i))), FreePort (info_port i)] @ t2 \<and>
          (info_port i \<in> usedPorts (fst (deviceScanner killf devices g)) \<longrightarrow>
             AllocPort (info_port i) \<in> set t2)) \<and>
      \<not> has (activeClients (fst (deviceScanner killf devices g))) s \<and>
      \<not> has (deviceBuffers (fst (deviceScanner killf devices g))) s)"
proof (intro conjI impI)
  show "stop kill c =
     (c\<lparr> socket := False, localServer := False, adbProcess := False \<rparr>,
      (if socket c then [SocketDestroy] else []) @ (if localServer c then [ServerClose] else [])
      @ (if adbProcess c then [ProcessKill] else []) @ [EmitStopped])"
    by (rule stop_eq)
next
  assume a: "\<not> scanning g \<and> (s, i) \<in> set (activeClients g) \<and> s \<notin> dev_serial ` set devices"
  let ?cur = "dev_serial ` set devices"
  let ?g0 = "g\<lparr> scanning := True \<rparr>"
  obtain g1 tr1 where r1: "removeLoop killf ?cur (activeClients g) ?g0 [] = (g1, tr1)"
    by (cases "removeLoop killf ?cur (activeClients g) ?g0 []")
  obtain g2 tr2 where r2: "addLoop devices g1 tr1 = (g2, tr2)"
    by (cases "addLoop devices g1 tr1")
  have res: "deviceScanner killf devices g = (g2\<lparr> scanning := False \<rparr>, tr2)"
    using a r1 r2 by (simp add: deviceScanner_def)
  have p1: "info_port i \<notin> usedPorts g1"
    using removeLoop_ports [OF r1] a by auto
  then show "info_port i \<notin> usedPorts (fst (removeLoop killf (set (map dev_serial devices))
                                        (activeClients g) (g\<lparr> scanning := True \<rparr>) []))"
    using r1 by simp
  from removeLoop_stops [of s i "activeClients g" ?cur killf ?g0 "[]"] a r1
  obtain t1 t2 where t: "tr1 =
      t1 @ [ClientStop s (snd (stop (killf s) (client i))), FreePort (info_port i)] @ t2"
    by auto
  from addLoop_ports [OF r2] obtain t3 where
    t3: "tr2 = tr1 @ t3" "usedPorts g2 \<subseteq> usedPorts g1 \<union> {p. AllocPort p \<in> set t3}"
    by blast
  have e: "tr2 =
      t1 @ [ClientStop s (snd (stop (killf s) (client i))), FreePort (info_port i)] @ (t2 @ t3)"
    using t t3(1) by simp
  have "info_port i \<in> usedPorts g2 \<longrightarrow> AllocPort (info_port i) \<in> set (t2 @ t3)"
    using t3(2) p1 by auto
  with e show "\<exists>t1 t2. snd (deviceScanner killf devices g) =
          t1 @ [ClientStop s (snd (stop (killf s) (client i))), FreePort (info_port i)] @ t2 \<and>
          (info_port i \<in> usedPorts (fst (deviceScanner killf devices g)) \<longrightarrow>
             AllocPort (info_port i) \<in> set t2)"
    unfolding res by (intro exI [of _ t1] exI [of _ "t2 @ t3"]) simp
  have sk: "s \<in> fst ` set (activeClients g)"
    using a by force
  have "s \<notin> fst ` set (activeClients g1)"
    using removeLoop_keys [OF r1] a sk by simp
  with addLoop_keys [OF r2] a have "s \<notin> fst ` set (activeClients g2)"
    by blast
  then show "\<not> has (activeClients (fst (deviceScanner killf devices g))) s"
    unfolding res by (simp add: has_def)
  have "s \<notin> fst ` set (deviceBuffers g1)"
    using removeLoop_buffer_keys [OF r1] a sk by simp
  with addLoop_buffer_keys [OF r2] a have "s \<notin> fst ` set (deviceBuffers g2)"
    by blast
  then show "\<not> has (deviceBuffers (fst (deviceScanner killf devices g))) s"
    unfolding res by (simp add: has_def)
qed

text \<open>
  A running client whose kill throws, and its device gone from the list: the port
  27183 is leased before the scan and free after it.
\<close>

theorem stop_releases_witness:
  "stop (Inl SystemError) running_client =
     (newClient ''A'' 27183, [SocketDestroy, ServerClose, ProcessKill, EmitStopped]) \<and>
   deviceScanner (\<lambda>s. Inl SystemError) [] running_device =
     (initial_global,
      [ClientStop ''A'' [SocketDestroy, ServerClose, ProcessKill, EmitStopped], FreePort 27183]) \<and>
   27183 \<notin> usedPorts (fst (deviceScanner (\<lambda>s. Inl SystemError) [] running_device)) \<and>
   \<not> has (activeClients (fst (deviceScanner (\<lambda>s. Inl SystemError) [] running_device))) ''A''"
  using stop_releases [of "Inl SystemError" running_client running_device "''A''"
      "\<lparr> client = running_client, info_port = 27183 \<rparr>" "[]" "\<lambda>s. Inl SystemError"]
  by (simp add: stop_running_client)
     (simp add: deviceScanner_def running_device_def initial_global_def stop_running_client
        freePort_def has_def)

text \<open>
  The same client when another device has been attached in its place: the scan frees
  the port 27183 and allocates it again for the new device.
\<close>

lemma port_leased_again:
  "deviceScanner (\<lambda>s. Inr ()) [\<lparr> dev_serial = ''B'', model = ''Pixel'' \<rparr>] running_device =
     (\<lparr> activeClients = [(''B'', \<lparr> client = newClient ''B'' 27183, info_port = 27183 \<rparr>)],
        deviceBuffers = [(''B'', \<lparr> sps = None, pps = None, idr = None \<rparr>)],
        usedPorts = {27183}, scanning = False, wssClients = [] \<rparr>,
      [ClientStop ''A'' [SocketDestroy, ServerClose, ProcessKill, EmitStopped], FreePort 27183,
       AllocPort 27183, NewClient ''B'' 27183, ClientStart ''B''])"
  by (simp add: deviceScanner_def running_device_def stop_running_client freePort_def has_def
      allocPort_empty)

lemma packet_bytes_pair [simp]: "packet_bytes (m, pl) = m @ pl"
  by (simp add: packet_bytes_def)

lemma consume_packets:
  assumes "readState c = STREAMING" "streamState c = PACKET_META"
    and "buffer c = concat (map packet_bytes pkts)"
    and "\<forall>pkt \<in> set pkts. length (fst pkt) = 12 \<and> be32 (fst pkt) 8 = length (snd pkt) \<and> snd pkt \<noteq> []"
  shows "snd (consume c evs) = evs @ map (\<lambda>pkt. VideoData (snd pkt)) pkts \<and>
         buffer (fst (consume c evs)) = [] \<and> streamState (fst (consume c evs)) = PACKET_META"
  using assms
proof (induction pkts arbitrary: c evs)
  case Nil
  then have "atRest c" by (simp add: atRest_def)
  with Nil show ?case by (simp add: consume_rest)
next
  case (Cons pkt pkts)
  obtain m pl where pkt: "pkt = (m, pl)" by (cases pkt)
  let ?rest = "concat (map packet_bytes pkts)"
  from Cons.prems(4) pkt have m: "length m = 12" "be32 m 8 = length pl" "pl \<noteq> []"
    by simp_all
  have b: "buffer c = m @ pl @ ?rest"
    using Cons.prems(3) pkt by simp
  let ?c1 = "metaStep c"
  have c1: "readState ?c1 = STREAMING" "streamState ?c1 = PACKET_DATA"
    "currentPacketSize ?c1 = length pl" "buffer ?c1 = pl @ ?rest"
    using Cons.prems(1) b m by (simp_all add: metaStep_def be32_append)
  have s1: "consume c evs = consume ?c1 evs"
    using Cons.prems(1,2) b m by (intro consume_meta') simp_all
  let ?c2 = "dataStep ?c1"
  have c2: "readState ?c2 = STREAMING" "streamState ?c2 = PACKET_META" "buffer ?c2 = ?rest"
    using c1 by (simp_all add: dataStep_def)
  have s2: "consume ?c1 evs = consume ?c2 (evs @ [VideoData pl])"
    using consume_data' [of ?c1 evs] c1 m by simp
  from Cons.prems(4) have "\<forall>pkt \<in> set pkts. length (fst pkt) = 12 \<and>
      be32 (fst pkt) 8 = length (snd pkt) \<and> snd pkt \<noteq> []"
    by simp
  from Cons.IH [OF c2 this, of "evs @ [VideoData pl]"] show ?case
    by (simp add: s1 s2 pkt)
qed

lemma feed_header_packets:
  assumes "length hdr = 76"
    and "\<forall>pkt \<in> set pkts. length (fst pkt) = 12 \<and> readUInt32BE (fst pkt) 8 = Inr (length (snd pkt)) \<and> snd pkt \<noteq> []"
    and "concat chunks = hdr @ concat (map packet_bytes pkts)"
  shows "\<exists>c'. feed (newClient s p) chunks =
           Inr (c', Ready (headerInfo hdr) # map (\<lambda>pkt. VideoData (snd pkt)) pkts) \<and>
         buffer c' = []"
proof -
  let ?c0 = "(newClient s p)\<lparr> buffer := concat chunks \<rparr>"
  let ?c1 = "headerStep ?c0"
  have s0: "consume ?c0 [] = consume ?c1 [Ready (headerInfo hdr)]"
    using consume_header' [of ?c0 "[]"] assms(1,3) by (simp add: headerInfo_append)
  have c1: "readState ?c1 = STREAMING" "streamState ?c1 = PACKET_META"
    "buffer ?c1 = concat (map packet_bytes pkts)"
    using assms(1,3) by (simp_all add: headerStep_def)
  have "\<forall>pkt \<in> set pkts. length (fst pkt) = 12 \<and> be32 (fst pkt) 8 = length (snd pkt) \<and> snd pkt \<noteq> []"
    using assms(2) by (auto dest: readUInt32BE_Inr)
  from consume_packets [OF c1 this, of "[Ready (headerInfo hdr)]"]
  show ?thesis
    by (simp add: feed_newClient s0 prod_eq_iff)
qed

text \<open>
  A packet that declares the size 0 and ends the stream: its (empty) video packet is not
  emitted with the meta but as the first event of the call that brings the next byte,
  because the loop stops as soon as no byte remains.
\<close>

lemma empty_packet_deferred:
  assumes "length hdr = 76" "length meta = 12" "readUInt32BE meta 8 = Inr 0"
    and "concat chunks = hdr @ meta"
  shows "\<exists>c'. feed (newClient s p) chunks = Inr (c', [Ready (headerInfo hdr)]) \<and>
           processData c' [b] =
             Inr (c'\<lparr> streamState := PACKET_META, buffer := [b] \<rparr>, [VideoData []])"
proof -
  let ?c0 = "(newClient s p)\<lparr> buffer := hdr @ meta \<rparr>"
  let ?c1 = "(newClient s p)\<lparr> deviceInfo := headerInfo hdr, readState := STREAMING,
                buffer := meta \<rparr>"
  let ?c2 = "(newClient s p)\<lparr> deviceInfo := headerInfo hdr, readState := STREAMING,
                currentPacketSize := 0, streamState := PACKET_DATA, buffer := [] \<rparr>"
  let ?c3 = "(newClient s p)\<lparr> deviceInfo := headerInfo hdr, readState := STREAMING,
                currentPacketSize := 0, streamState := PACKET_DATA, buffer := [b] \<rparr>"
  let ?c4 = "(newClient s p)\<lparr> deviceInfo := headerInfo hdr, readState := STREAMING,
                currentPacketSize := 0, streamState := PACKET_META, buffer := [b] \<rparr>"
  have be: "be32 meta 8 = 0"
    using readUInt32BE_Inr [OF assms(3)] by simp
  have s0: "consume ?c0 [] = consume ?c1 [Ready (headerInfo hdr)]"
    using consume_header' [of ?c0 "[]"] assms(1) by (simp add: headerStep_def headerInfo_append)
  have s1: "consume ?c1 evs = consume ?c2 evs" for evs
    using consume_meta' [of ?c1 evs] assms(2) be by (simp add: metaStep_def)
  have r2: "atRest ?c2"
    by (rule atRest_empty) simp
  have f: "feed (newClient s p) chunks = Inr (?c2, [Ready (headerInfo hdr)])"
    by (simp add: feed_newClient assms(4) s0 s1 consume_rest [OF r2])
  have s3: "consume ?c3 [] = consume ?c4 [VideoData []]"
    using consume_data' [of ?c3 "[]"] by (simp add: dataStep_def)
  have r4: "atRest ?c4"
    by (simp add: atRest_def)
  have "processData ?c2 [b] = Inr (?c4, [VideoData []])"
    by (simp add: processData_consume s3 consume_rest [OF r4])
  with f show ?thesis
    by (intro exI [of _ ?c2]) simp
qed

text \<open>
  Claim C1. Whatever the byte stream and however it is cut into chunks (empty chunks
  included), feeding the chunks one call after the other to a new client leaves the same
  client state and emits the same events in the same order as feeding the whole stream
  in one call. When the stream is a 76-byte header followed by complete packets with
  payloads that are not empty, these events are the \<open>Ready\<close> event of the header and
  then one video packet per packet of the stream, with its payload, in the order of the
  stream, and no byte is left in the buffer: the cuts lose no byte and use none twice.
  (For a packet of size 0 at the very end of a stream see \<open>empty_packet_deferred\<close>.)
\<close>

theorem framer_determinism:
  "feed (newClient s p) chunks = processData (newClient s p) (concat chunks) \<and>
   (length hdr = 76 \<and>
    (\<forall>pkt \<in> set pkts. length (fst pkt) = 12 \<and>
        readUInt32BE (fst pkt) 8 = Inr (length (snd pkt)) \<and> snd pkt \<noteq> []) \<and>
    concat chunks = hdr @ concat (map packet_bytes pkts) \<longrightarrow>
    (\<exists>c'. feed (newClient s p) chunks =
             Inr (c', Ready \<lparr> name = removeNul (toString_utf8 (subarray hdr 0 64)),
                               width = be32 hdr 68, height = be32 hdr 72 \<rparr>
                      # map (\<lambda>pkt. VideoData (snd pkt)) pkts) \<and>
           buffer c' = []))"
proof (intro conjI impI)
  show "feed (newClient s p) chunks = processData (newClient s p) (concat chunks)"
    by (simp add: feed_consume atRest_newClient processData_consume)
next
  assume a: "length hdr = 76 \<and>
    (\<forall>pkt \<in> set pkts. length (fst pkt) = 12 \<and>
        readUInt32BE (fst pkt) 8 = Inr (length (snd pkt)) \<and> snd pkt \<noteq> []) \<and>
    concat chunks = hdr @ concat (map packet_bytes pkts)"
  have "headerInfo hdr = \<lparr> name = removeNul (toString_utf8 (subarray hdr 0 64)),
                            width = be32 hdr 68, height = be32 hdr 72 \<rparr>"
    by (simp add: headerInfo_def subarray_def)
  with feed_header_packets [of hdr pkts chunks s p] a
  show "\<exists>c'. feed (newClient s p) chunks =
             Inr (c', Ready \<lparr> name = removeNul (toString_utf8 (subarray hdr 0 64)),
                               width = be32 hdr 68, height = be32 hdr 72 \<rparr>
                      # map (\<lambda>pkt. VideoData (snd pkt)) pkts) \<and>
           buffer c' = []"
    by simp
qed

text \<open>A header and two packets, cut inside the header, inside a meta and inside a
  payload, with an empty chunk in between.\<close>

theorem framer_determinism_witness:
  "feed (newClient ''A'' 27183)
     [replicate 70 0, replicate 6 0 @ [0, 0, 0, 0, 0, 0, 0, 0, 0, 0], [0, 2, 7], [8], [],
      [0, 0, 0, 0, 0, 0, 0, 0, 0, 0, 0, 1, 9]] =
   processData (newClient ''A'' 27183)
     (replicate 76 0 @ [0, 0, 0, 0, 0, 0, 0, 0, 0, 0, 0, 2, 7, 8]
        @ [0, 0, 0, 0, 0, 0, 0, 0, 0, 0, 0, 1, 9]) \<and>
   (\<exists>c'. feed (newClient ''A'' 27183)
     [replicate 70 0, replicate 6 0 @ [0, 0, 0, 0, 0, 0, 0, 0, 0, 0], [0, 2, 7], [8], [],
      [0, 0, 0, 0, 0, 0, 0, 0, 0, 0, 0, 1, 9]] =
     Inr (c', [Ready \<lparr> name = [], width = 0, height = 0 \<rparr>, VideoData [7, 8], VideoData [9]]))"
proof -
  let ?chunks = "[replicate 70 0, replicate 6 0 @ [0, 0, 0, 0, 0, 0, 0, 0, 0, 0], [0, 2, 7], [8], [],
      [0, 0, 0, 0, 0, 0, 0, 0, 0, 0, 0, 1, 9]] :: Buffer list"
  let ?pkts = "[([0, 0, 0, 0, 0, 0, 0, 0, 0, 0, 0, 2], [7, 8]),
                ([0, 0, 0, 0, 0, 0, 0, 0, 0, 0, 0, 1], [9])] :: (Buffer \<times> Buffer) list"
  have r: "replicate 70 (0 :: byte) @ replicate 6 0 = replicate 76 0"
    by (simp add: replicate_add [symmetric])
  have c: "concat ?chunks = replicate 76 0 @ [0, 0, 0, 0, 0, 0, 0, 0, 0, 0, 0, 2, 7, 8]
        @ [0, 0, 0, 0, 0, 0, 0, 0, 0, 0, 0, 1, 9]"
    using r by simp
  have h: "length (replicate 76 (0 :: byte)) = 76 \<and>
    (\<forall>pkt \<in> set ?pkts. length (fst pkt) = 12 \<and>
        readUInt32BE (fst pkt) 8 = Inr (length (snd pkt)) \<and> snd pkt \<noteq> []) \<and>
    concat ?chunks = replicate 76 0 @ concat (map packet_bytes ?pkts)"
    unfolding c by (simp add: readUInt32BE_def)
  have n: "removeNul (toString_utf8 (subarray (replicate 76 0) 0 64)) = []"
    "be32 (replicate 76 0) 68 = 0" "be32 (replicate 76 0) 72 = 0"
    by (simp_all add: subarray_def toString_utf8_def utf8_decode_zeros removeNul_def be32_def)
  from framer_determinism [of "''A''" 27183 ?chunks "replicate 76 0" ?pkts] h
  have "feed (newClient ''A'' 27183) ?chunks = processData (newClient ''A'' 27183) (concat ?chunks)"
    and "\<exists>c'. feed (newClient ''A'' 27183) ?chunks =
      Inr (c', Ready \<lparr> name = removeNul (toString_utf8 (subarray (replicate 76 0) 0 64)),
                        width = be32 (replicate 76 0) 68, height = be32 (replicate 76 0) 72 \<rparr>
               # map (\<lambda>pkt. VideoData (snd pkt)) ?pkts)"
    by blast+
  then show ?thesis
    unfolding n c by simp
qed

end
